theory Spec2Isabelle
  imports Main
begin

section \<open>Data model\<close>

text \<open>
  The registry of \<^verbatim>\<open>JsonRegistry\<close> (\<^verbatim>\<open>part_000\<close>) stores JavaScript objects and
  shares them between several maps: the entity put into \<^verbatim>\<open>jsonObjs\<close> is the very
  object appended to \<^verbatim>\<open>jsonFileObjs[path]\<close>, and \<^verbatim>\<open>validateEntity\<close>
  mutates it in place. The model therefore keeps an explicit object store
  (\<open>heap\<close>, a list indexed by address, allocation appends) and the maps hold
  addresses. A JavaScript \<^verbatim>\<open>Map\<close> iterates in insertion order, so each map is an
  association list with the \<^verbatim>\<open>Map\<close> operations written out.

  Document content is the type \<^verbatim>\<open>any\<close> in the source; here it is a JSON tree.
  Numbers are never inspected by the registry, so they are kept as integers.
\<close>

datatype json =
    JNull
  | JBool bool
  | JNum int
  | JStr string
  | JArr "json list"
  | JObj "(string \<times> json) list"

text \<open>\<^verbatim>\<open>ValidationError\<close>; \<^verbatim>\<open>ValidationResult\<close> is \<^verbatim>\<open>{ errors: [...] }\<close>, so a
  validation result is the list of its errors, and a missing result is \<open>None\<close>.\<close>

record validationError =
  instancePath :: string
  schemaPath :: string
  keyword :: string
  message :: string
  params :: "(string \<times> json) list"
  data :: "json option"

text \<open>\<^verbatim>\<open>JsonFile\<close>: path, name, content and the parse-level validation.\<close>

record jsonFile =
  filePath :: string
  fileName :: string
  fileContent :: json
  fileValidation :: "validationError list option"

text \<open>An outgoing reference \<^verbatim>\<open>{ id, sourcePath }\<close> of an entity.\<close>

record gtsRef =
  refId :: string
  sourcePath :: string

text \<open>\<^verbatim>\<open>entity instanceof JsonSchema\<close> against \<^verbatim>\<open>entity instanceof JsonObj\<close>.\<close>

datatype entityClass = JsonSchema | JsonObj

text \<open>
  \<^verbatim>\<open>JsonEntity\<close> with the fields the registry reads: \<^verbatim>\<open>id\<close> (here \<open>entId\<close>),
  the class, the owning file, \<^verbatim>\<open>listSequence\<close>, \<^verbatim>\<open>content\<close>, \<^verbatim>\<open>gtsRefs\<close>,
  \<^verbatim>\<open>schemaId\<close>, the two \<^verbatim>\<open>selected...Field\<close> names, the answer of
  \<^verbatim>\<open>isGtsEntity()\<close> and the mutable \<^verbatim>\<open>validation\<close>.
\<close>

record jsonEntity =
  entId :: string
  entClass :: entityClass
  entFile :: jsonFile
  listSequence :: "nat option"
  content :: json
  gtsRefs :: "gtsRef list"
  schemaId :: "string option"
  selectedSchemaIdField :: "string option"
  selectedEntityIdField :: "string option"
  isGtsEntity :: bool
  validation :: "validationError list option"

type_synonym addr = nat

subsection \<open>JavaScript \<^verbatim>\<open>Map\<close> as an insertion-ordered association list\<close>

definition mapHas :: "('k \<times> 'v) list \<Rightarrow> 'k \<Rightarrow> bool" where
  "mapHas m k = (map_of m k \<noteq> None)"

definition mapGet :: "('k \<times> 'v) list \<Rightarrow> 'k \<Rightarrow> 'v option" where
  "mapGet m k = map_of m k"

text \<open>\<^verbatim>\<open>Map.set\<close>: an existing key keeps its position, a new key goes last.\<close>

fun mapSet :: "('k \<times> 'v) list \<Rightarrow> 'k \<Rightarrow> 'v \<Rightarrow> ('k \<times> 'v) list" where
  "mapSet [] k v = [(k, v)]"
| "mapSet (p # ps) k v = (if fst p = k then (k, v) # ps else p # mapSet ps k v)"

definition mapDelete :: "('k \<times> 'v) list \<Rightarrow> 'k \<Rightarrow> ('k \<times> 'v) list" where
  "mapDelete m k = filter (\<lambda>p. fst p \<noteq> k) m"

definition mapValues :: "('k \<times> 'v) list \<Rightarrow> 'v list" where
  "mapValues m = map snd m"

subsection \<open>The registry\<close>

record registry =
  heap :: "jsonEntity list"
  jsonObjs :: "(string \<times> addr) list"
  jsonSchemas :: "(string \<times> addr) list"
  jsonFiles :: "(string \<times> jsonFile) list"
  invalidFiles :: "(string \<times> jsonFile) list"
  jsonFileObjs :: "(string \<times> addr list) list"
  jsonFileSchemas :: "(string \<times> addr list) list"
  absentGtsEntities :: "(string \<times> jsonEntity) list"
  fetchCache :: "(string \<times> json) list"
  defaultFilePath :: "string option"

text \<open>Reading an object through its reference.\<close>

definition deref :: "jsonEntity list \<Rightarrow> addr \<Rightarrow> jsonEntity option" where
  "deref h a = (if a < length h then Some (h ! a) else None)"

text \<open>The constructor: every map empty, no default file.\<close>

definition newRegistry :: registry where
  "newRegistry =
     \<lparr> heap = [], jsonObjs = [], jsonSchemas = [], jsonFiles = [], invalidFiles = [],
       jsonFileObjs = [], jsonFileSchemas = [], absentGtsEntities = [],
       fetchCache = [], defaultFilePath = None \<rparr>"

text \<open>\<^verbatim>\<open>reset()\<close>, lines 44--53: seven \<^verbatim>\<open>clear()\<close> calls and the pointer.
  \<^verbatim>\<open>absentGtsEntities\<close> is not among them.\<close>

definition reset :: "registry \<Rightarrow> registry" where
  "reset r =
     r\<lparr> jsonObjs := [], jsonSchemas := [], jsonFiles := [], invalidFiles := [],
        fetchCache := [], jsonFileObjs := [], jsonFileSchemas := [],
        defaultFilePath := None \<rparr>"

text \<open>The loop \<^verbatim>\<open>for (const obj of list) index.delete(obj.id)\<close>.\<close>

fun deleteIds :: "jsonEntity list \<Rightarrow> addr list \<Rightarrow> (string \<times> addr) list \<Rightarrow> (string \<times> addr) list" where
  "deleteIds h [] m = m"
| "deleteIds h (a # as) m =
     deleteIds h as (case deref h a of None \<Rightarrow> m | Some e \<Rightarrow> mapDelete m (entId e))"

text \<open>\<^verbatim>\<open>invalidateFile(path)\<close>, lines 58--79.\<close>

definition invalidateFile :: "string \<Rightarrow> registry \<Rightarrow> registry" where
  "invalidateFile p r =
     (let r1 = (if mapHas (jsonFiles r) p
                then r\<lparr>jsonFiles := mapDelete (jsonFiles r) p\<rparr> else r);
          r2 = (if mapHas (invalidFiles r1) p
                then r1\<lparr>invalidFiles := mapDelete (invalidFiles r1) p\<rparr> else r1);
          r3 = (case mapGet (jsonFileObjs r2) p of
                  None \<Rightarrow> r2
                | Some objs \<Rightarrow>
                    r2\<lparr> jsonObjs := deleteIds (heap r2) objs (jsonObjs r2),
                        jsonFileObjs := mapSet (mapDelete (jsonFileObjs r2) p) p [] \<rparr>);
          r4 = (case mapGet (jsonFileSchemas r3) p of
                  None \<Rightarrow> r3
                | Some schemas \<Rightarrow>
                    r3\<lparr> jsonSchemas := deleteIds (heap r3) schemas (jsonSchemas r3),
                        jsonFileSchemas := mapSet (mapDelete (jsonFileSchemas r3) p) p [] \<rparr>)
      in r4)"

text \<open>
  \<^verbatim>\<open>setDefaultFile(pathOrNull)\<close>, lines 389--395. The argument is \<open>None\<close> for
  \<^verbatim>\<open>null\<close>/\<^verbatim>\<open>undefined\<close>. The test \<^verbatim>\<open>if (pathOrNull)\<close> is JavaScript
  truthiness, so the empty string takes the else branch as well. There
  \<^verbatim>\<open>jsonFiles.values().next().value?.path || null\<close> reads the \<^verbatim>\<open>path\<close> field of the
  first tracked file, and an empty one becomes \<^verbatim>\<open>null\<close>.
\<close>

definition truthy :: "string option \<Rightarrow> bool" where
  "truthy s = (case s of None \<Rightarrow> False | Some t \<Rightarrow> t \<noteq> [])"

definition orNull :: "string option \<Rightarrow> string option" where
  "orNull s = (if truthy s then s else None)"

definition firstFilePath :: "registry \<Rightarrow> string option" where
  "firstFilePath r =
     (case mapValues (jsonFiles r) of [] \<Rightarrow> None | f # _ \<Rightarrow> orNull (Some (filePath f)))"

definition setDefaultFile :: "string option \<Rightarrow> registry \<Rightarrow> registry" where
  "setDefaultFile pathOrNull r =
     (if truthy pathOrNull then r\<lparr>defaultFilePath := pathOrNull\<rparr>
      else r\<lparr>defaultFilePath := firstFilePath r\<rparr>)"

text \<open>\<^verbatim>\<open>getDefaultFilePath()\<close>: \<^verbatim>\<open>this.defaultFilePath || null\<close>.\<close>

definition getDefaultFilePath :: "registry \<Rightarrow> string option" where
  "getDefaultFilePath r = orNull (defaultFilePath r)"

text \<open>\<^verbatim>\<open>getDefaultFile()\<close>: \<open>None\<close> is \<^verbatim>\<open>undefined\<close>.\<close>

definition getDefaultFile :: "registry \<Rightarrow> jsonFile option" where
  "getDefaultFile r =
     (case defaultFilePath r of
        None \<Rightarrow> None
      | Some p \<Rightarrow> if p = [] then None else mapGet (jsonFiles r) p)"

section \<open>Collaborators outside the registry\<close>

text \<open>
  \<^verbatim>\<open>entities.js\<close> (the classes \<^verbatim>\<open>JsonFile\<close>, \<^verbatim>\<open>JsonObj\<close>, \<^verbatim>\<open>JsonSchema\<close> and
  the functions \<^verbatim>\<open>createEntity\<close>, \<^verbatim>\<open>getGtsConfig\<close>, \<^verbatim>\<open>decodeGtsId\<close>,
  \<^verbatim>\<open>createAbsentEntity\<close>) and the Ajv library are imported by \<^verbatim>\<open>part_000\<close> and are not
  part of the sources. They are parameters of the model, collected in one record.
  The extraction \<^verbatim>\<open>createEntity\<close> answers \<open>None\<close> for \<^verbatim>\<open>null\<close>/\<^verbatim>\<open>undefined\<close>;
  by its interface contract it does not throw.
\<close>

text \<open>An Ajv \<^verbatim>\<open>ErrorObject\<close>; an empty string stands for a missing string field.\<close>

record errorObject =
  errInstancePath :: string
  errSchemaPath :: string
  errKeyword :: string
  errMessage :: "string option"
  errParams :: "(string \<times> json) list"
  errData :: "json option"

text \<open>A caught exception, read through \<^verbatim>\<open>error?.errors\<close> and \<^verbatim>\<open>error?.message\<close>.\<close>

datatype thrown = Thrown (thrownErrors: "errorObject list option") (thrownMessage: "string option")

text \<open>A call \<^verbatim>\<open>validate(content)\<close>: the boolean with \<^verbatim>\<open>validate.errors\<close>, or a throw.\<close>

datatype validateOutcome =
    Validated bool "errorObject list option"
  | ValidateThrew thrown

datatype compileOutcome =
    Compiled "json \<Rightarrow> validateOutcome"
  | CompileThrew thrown

text \<open>What the \<^verbatim>\<open>loadSchema\<close> callback hands to Ajv.\<close>

datatype loadResult = LoadTrue | LoadContent json | LoadThrew string

record 'cfg collaborators =
  parseValidation :: "string \<Rightarrow> string \<Rightarrow> json \<Rightarrow> validationError list option"
  createEntity :: "jsonFile \<Rightarrow> nat option \<Rightarrow> json \<Rightarrow> 'cfg \<Rightarrow> jsonEntity option"
  getGtsConfig :: "'cfg \<Rightarrow> 'cfg"
  createAbsentEntity :: "string \<Rightarrow> jsonEntity"
  decodeGtsId :: "string \<Rightarrow> string"
  validationDisabled :: bool
  compileAsync :: "(string \<Rightarrow> loadResult) \<Rightarrow> json \<Rightarrow> compileOutcome"
  templateString :: "json option \<Rightarrow> string"
  jsonStringify :: "json option \<Rightarrow> string"

text \<open>
  Modelled from the spec: the class \<^verbatim>\<open>JsonFile\<close> is not under src/. The spec gives a
  file its path, name, raw content and a validation result for parse-level failure;
  the constructor call \<^verbatim>\<open>new JsonFile(path, name, content)\<close> stores the three
  arguments and the parse-level result of the collaborator.
\<close>

definition newJsonFile :: "'cfg collaborators \<Rightarrow> string \<Rightarrow> string \<Rightarrow> json \<Rightarrow> jsonFile" where
  "newJsonFile env p n c =
     \<lparr> filePath = p, fileName = n, fileContent = c,
       fileValidation = parseValidation env p n c \<rparr>"

text \<open>
  Modelled from the spec: \<^verbatim>\<open>normalizeGtsId\<close> is not under src/. The spec has it strip
  a fixed vendor URI prefix; the comments at \<^verbatim>\<open>resolveSchema\<close> name the prefix
  \<^verbatim>\<open>gts://\<close>.
\<close>

definition gtsUriPrefix :: string where
  "gtsUriPrefix = ''gts://''"

definition startsWith :: "string \<Rightarrow> string \<Rightarrow> bool" where
  "startsWith s pre = (take (length pre) s = pre)"

definition normalizeGtsId :: "string \<Rightarrow> string" where
  "normalizeGtsId i =
     (if startsWith i gtsUriPrefix then drop (length gtsUriPrefix) i else i)"

section \<open>Ingestion\<close>

text \<open>\<^verbatim>\<open>normalizeToArray\<close>, lines 10--12.\<close>

definition isArray :: "json \<Rightarrow> bool" where
  "isArray c = (case c of JArr _ \<Rightarrow> True | _ \<Rightarrow> False)"

definition normalizeToArray :: "json \<Rightarrow> json list" where
  "normalizeToArray c = (case c of JArr xs \<Rightarrow> xs | _ \<Rightarrow> [c])"

text \<open>
  Lines 112--121, for an entity that passed \<^verbatim>\<open>entity && entity.isGtsEntity()\<close>:
  the object gets its address, goes into the index of its class under its id and is
  appended to the list of its path (\<^verbatim>\<open>[...get(path) || [], entity]\<close>).
\<close>

definition orEmpty :: "'a list option \<Rightarrow> 'a list" where
  "orEmpty l = (case l of None \<Rightarrow> [] | Some xs \<Rightarrow> xs)"

definition registerEntity :: "string \<Rightarrow> jsonEntity \<Rightarrow> registry \<Rightarrow> registry" where
  "registerEntity p e r =
     (let a = length (heap r); r' = r\<lparr>heap := heap r @ [e]\<rparr>
      in if entClass e = JsonSchema
         then r'\<lparr> jsonSchemas := mapSet (jsonSchemas r') (entId e) a,
                 jsonFileSchemas :=
                   mapSet (jsonFileSchemas r') p (orEmpty (mapGet (jsonFileSchemas r') p) @ [a]) \<rparr>
         else r'\<lparr> jsonObjs := mapSet (jsonObjs r') (entId e) a,
                 jsonFileObjs :=
                   mapSet (jsonFileObjs r') p (orEmpty (mapGet (jsonFileObjs r') p) @ [a]) \<rparr>)"

text \<open>
  The \<^verbatim>\<open>entities.forEach((entityContent, idx) => ...)\<close> of lines 103--122. The
  state is the registry with the flag \<^verbatim>\<open>hasGtsEntities\<close>; \<open>arr\<close> is
  \<^verbatim>\<open>Array.isArray(content)\<close>, so that \<^verbatim>\<open>seq\<close> is the index or \<^verbatim>\<open>undefined\<close>.
\<close>

fun forEachEntity ::
  "'cfg collaborators \<Rightarrow> jsonFile \<Rightarrow> string \<Rightarrow> 'cfg \<Rightarrow> bool \<Rightarrow> json list \<Rightarrow> nat
     \<Rightarrow> registry \<times> bool \<Rightarrow> registry \<times> bool" where
  "forEachEntity env jf p cfg arr [] idx st = st"
| "forEachEntity env jf p cfg arr (c # cs) idx (r, has) =
     forEachEntity env jf p cfg arr cs (Suc idx)
       (case createEntity env jf (if arr then Some idx else None) c cfg of
          None \<Rightarrow> (r, has)
        | Some e \<Rightarrow> if isGtsEntity e then (registerEntity p e r, True) else (r, has))"

text \<open>\<^verbatim>\<open>jsonFile.validation && jsonFile.validation.errors.length > 0\<close>.\<close>

definition hasParseErrors :: "jsonFile \<Rightarrow> bool" where
  "hasParseErrors jf = (case fileValidation jf of None \<Rightarrow> False | Some errs \<Rightarrow> errs \<noteq> [])"

text \<open>\<^verbatim>\<open>processFileContent(path, name, content, cfg)\<close>, lines 85--128.\<close>

definition processFileContent ::
  "'cfg collaborators \<Rightarrow> string \<Rightarrow> string \<Rightarrow> json \<Rightarrow> 'cfg \<Rightarrow> registry \<Rightarrow> registry" where
  "processFileContent env p n c cfg r =
     (let r1 = invalidateFile p r;
          jf = newJsonFile env p n c
      in if hasParseErrors jf then r1\<lparr>invalidFiles := mapSet (invalidFiles r1) p jf\<rparr>
         else (case forEachEntity env jf p cfg (isArray c) (normalizeToArray c) 0 (r1, False) of
                 (r2, hasGtsEntities) \<Rightarrow>
                   if hasGtsEntities \<and> \<not> mapHas (jsonFiles r2) p
                   then r2\<lparr>jsonFiles := mapSet (jsonFiles r2) p jf\<rparr>
                   else r2))"

section \<open>Validation\<close>

subsection \<open>Phase A: the regular expressions on source paths\<close>

definition isDigit :: "char \<Rightarrow> bool" where
  "isDigit c = (c \<in> set ''0123456789'')"

text \<open>\<^verbatim>\<open>examples(?:\[|$|\.)\<close> matched at the start of \<open>s\<close>.\<close>

definition examplesHere :: "string \<Rightarrow> bool" where
  "examplesHere s =
     (startsWith s ''examples'' \<and>
      (case drop 8 s of [] \<Rightarrow> True | c # _ \<Rightarrow> c = CHR ''['' \<or> c = CHR ''.''))"

text \<open>\<^verbatim>\<open>\[\d+\]\.\<close> followed by \<^verbatim>\<open>examples(?:\[|$|\.)\<close>, matched at the start of \<open>s\<close>.
  The digits are greedy, and the bracket that must follow is no digit.\<close>

definition indexThenExamples :: "string \<Rightarrow> bool" where
  "indexThenExamples s =
     (case s of
        [] \<Rightarrow> False
      | c # t \<Rightarrow>
          c = CHR ''['' \<and> takeWhile isDigit t \<noteq> [] \<and>
          startsWith (dropWhile isDigit t) ''].'' \<and>
          examplesHere (drop 2 (dropWhile isDigit t)))"

text \<open>\<^verbatim>\<open>(?:allOf|anyOf|oneOf)\[\d+\]\.examples(?:\[|$|\.)\<close> matched at the start of \<open>s\<close>.\<close>

definition combinatorExamplesHere :: "string \<Rightarrow> bool" where
  "combinatorExamplesHere s =
     ((startsWith s ''allOf'' \<or> startsWith s ''anyOf'' \<or> startsWith s ''oneOf'') \<and>
      indexThenExamples (drop 5 s))"

text \<open>The same, searched at every position of \<open>s\<close>.\<close>

fun combinatorExamplesSomewhere :: "string \<Rightarrow> bool" where
  "combinatorExamplesSomewhere [] = False"
| "combinatorExamplesSomewhere (c # cs) =
     (combinatorExamplesHere (c # cs) \<or> combinatorExamplesSomewhere cs)"

text \<open>
  \<^verbatim>\<open>isInExamples\<close>, lines 144--145: the first expression is the alternative of
  \<^verbatim>\<open>^examples...\<close> and the combinator form anywhere, the second is \<^verbatim>\<open>^examples...\<close> again.
\<close>

definition isInExamples :: "string \<Rightarrow> bool" where
  "isInExamples sp =
     ((examplesHere sp \<or> combinatorExamplesSomewhere sp) \<or> examplesHere sp)"

text \<open>\<^verbatim>\<open>.replace(/\./g, '/')\<close>.\<close>

definition dotsToSlashes :: "string \<Rightarrow> string" where
  "dotsToSlashes s = map (\<lambda>c. if c = CHR ''.'' then CHR ''/'' else c) s"

text \<open>
  \<^verbatim>\<open>.replace(/\[(\d+)\]/g, '/$1')\<close>: scanning from the left, an opening bracket,
  one or more digits and a closing bracket become a slash and the digits; the scan
  goes on after the match. Anything else is copied.
\<close>

function indicesToSlashes :: "string \<Rightarrow> string" where
  "indicesToSlashes [] = []"
| "indicesToSlashes (c # cs) =
     (if c = CHR ''['' \<and> takeWhile isDigit cs \<noteq> [] \<and> startsWith (dropWhile isDigit cs) '']''
      then CHR ''/'' # takeWhile isDigit cs @ indicesToSlashes (drop 1 (dropWhile isDigit cs))
      else c # indicesToSlashes cs)"
  by pat_completeness auto
termination
proof (relation "measure length")
  show "wf (measure length)" by simp
next
  fix c :: char and cs :: string
  have "length (dropWhile isDigit cs) \<le> length cs"
    by (rule length_dropWhile_le)
  then show "(drop 1 (dropWhile isDigit cs), c # cs) \<in> measure length"
    by simp
next
  fix c :: char and cs :: string
  show "(cs, c # cs) \<in> measure length" by simp
qed

text \<open>Lines 156--158.\<close>

definition toInstancePath :: "string \<Rightarrow> string" where
  "toInstancePath sp =
     (if sp = ''root'' then ''/''
      else CHR ''/'' # indicesToSlashes (dotsToSlashes sp))"

text \<open>The error pushed at lines 159--165.\<close>

definition refNotFound :: "gtsRef \<Rightarrow> validationError" where
  "refNotFound ref =
     \<lparr> instancePath = toInstancePath (sourcePath ref),
       schemaPath = ''#'',
       keyword = [],
       message = ''GTS reference not found: '' @ refId ref,
       params = [(''gtsId'', JStr (refId ref)), (''sourcePath'', JStr (sourcePath ref))],
       data = None \<rparr>"

text \<open>\<^verbatim>\<open>this.jsonSchemas.has(ref.id) || this.jsonObjs.has(ref.id)\<close>, line 151.\<close>

definition refExists :: "registry \<Rightarrow> string \<Rightarrow> bool" where
  "refExists r i = (mapHas (jsonSchemas r) i \<or> mapHas (jsonObjs r) i)"

text \<open>
  The loop over \<^verbatim>\<open>entity.gtsRefs\<close>, lines 138--168. It reads the two indices of the
  registry \<open>r\<close>, which it does not change, and carries the placeholder map and the
  error list of the entity.
\<close>

fun checkGtsRefs ::
  "'cfg collaborators \<Rightarrow> registry \<Rightarrow> gtsRef list
     \<Rightarrow> (string \<times> jsonEntity) list \<times> validationError list
     \<Rightarrow> (string \<times> jsonEntity) list \<times> validationError list" where
  "checkGtsRefs env r [] st = st"
| "checkGtsRefs env r (ref # refs) (absent, errs) =
     checkGtsRefs env r refs
       (if isInExamples (sourcePath ref) then (absent, errs)
        else if \<not> refExists r (refId ref)
             then (mapSet absent (refId ref) (createAbsentEntity env (refId ref)),
                   errs @ [refNotFound ref])
             else (absent, errs))"

subsection \<open>Phase B: schema compilation and object validation\<close>

text \<open>\<^verbatim>\<open>a || b\<close> on strings, an empty string being falsy.\<close>

definition orElse :: "string \<Rightarrow> string \<Rightarrow> string" where
  "orElse a b = (if a = [] then b else a)"

text \<open>A template literal \<^verbatim>\<open>${m}\<close> of a string that may be \<^verbatim>\<open>undefined\<close>.\<close>

definition showMessage :: "string option \<Rightarrow> string" where
  "showMessage m = (case m of None \<Rightarrow> ''undefined'' | Some t \<Rightarrow> t)"

text \<open>
  The message chosen by the chain of \<^verbatim>\<open>if (err.keyword === ...)\<close> in
  \<^verbatim>\<open>formatValidationErrors\<close>, lines 278--311. \<open>par k\<close> is \<^verbatim>\<open>err.params.k\<close>.
\<close>

definition detailedMessage :: "'cfg collaborators \<Rightarrow> errorObject \<Rightarrow> string" where
  "detailedMessage env err =
     (let kw = errKeyword err;
          par = (\<lambda>k. templateString env (map_of (errParams err) k))
      in if kw = ''type'' then ''must be '' @ par ''type''
         else if kw = ''required''
           then ''missing required property '' @ [CHR 0x27] @ par ''missingProperty'' @ [CHR 0x27]
         else if kw = ''additionalProperties''
           then ''must NOT have additional property '' @ [CHR 0x27]
                  @ par ''additionalProperty'' @ [CHR 0x27]
         else if kw = ''pattern''
           then ''must match pattern '' @ [CHR 0x22] @ par ''pattern'' @ [CHR 0x22]
         else if kw = ''enum''
           then ''must be one of: '' @ jsonStringify env (map_of (errParams err) ''allowedValues'')
         else if kw = ''minimum'' \<or> kw = ''maximum''
           then ''must be '' @ par ''comparison'' @ '' '' @ par ''limit''
         else if kw = ''minLength'' \<or> kw = ''maxLength''
           then showMessage (errMessage err)
         else if kw = ''minItems'' \<or> kw = ''maxItems''
           then ''must '' @ (if kw = ''minItems'' then ''NOT'' else [])
                  @ '' have '' @ (if kw = ''minItems'' then ''fewer'' else ''more'')
                  @ '' than '' @ par ''limit'' @ '' items''
         else if kw = ''anyOf'' \<or> kw = ''oneOf'' \<or> kw = ''allOf''
           then ''must match '' @ kw @ '' schema''
         else if kw = ''format''
           then ''must match format '' @ [CHR 0x22] @ par ''format'' @ [CHR 0x22]
         else orElse (orEmpty (errMessage err)) ''Validation failed'')"

text \<open>\<^verbatim>\<open>formatValidationErrors\<close>, lines 272--322.\<close>

definition formatValidationError :: "'cfg collaborators \<Rightarrow> errorObject \<Rightarrow> validationError" where
  "formatValidationError env err =
     \<lparr> instancePath = orElse (errInstancePath err) ''/'',
       schemaPath = orElse (errSchemaPath err) ''#'',
       keyword = errKeyword err,
       message = detailedMessage env err,
       params = errParams err,
       data = errData err \<rparr>"

definition formatValidationErrors ::
  "'cfg collaborators \<Rightarrow> errorObject list \<Rightarrow> validationError list" where
  "formatValidationErrors env errs = map (formatValidationError env) errs"

text \<open>
  \<^verbatim>\<open>msg.match(/data(\/[A-Za-z0-9_\-\.\[\]\/]+)\b/)\<close>, line 195. After \<^verbatim>\<open>data\<close>
  the group takes a slash and the longest run of characters of the class, then gives
  characters back until it ends at a word boundary; the search tries every start
  from the left.
\<close>

definition isWordChar :: "char \<Rightarrow> bool" where
  "isWordChar c =
     (c \<in> set ''abcdefghijklmnopqrstuvwxyzABCDEFGHIJKLMNOPQRSTUVWXYZ0123456789_'')"

definition isPathChar :: "char \<Rightarrow> bool" where
  "isPathChar c = (isWordChar c \<or> c \<in> set ''-.[]/'')"

definition wordNext :: "char option \<Rightarrow> bool" where
  "wordNext n = (case n of None \<Rightarrow> False | Some c \<Rightarrow> isWordChar c)"

text \<open>The run is given reversed, \<open>nxt\<close> is the character after it.\<close>

fun giveBack :: "string \<Rightarrow> char option \<Rightarrow> string option" where
  "giveBack [] nxt = None"
| "giveBack (prev # earlier) nxt =
     (if isWordChar prev \<noteq> wordNext nxt then Some (rev (prev # earlier))
      else giveBack earlier (Some prev))"

definition dataPathHere :: "string \<Rightarrow> string option" where
  "dataPathHere s =
     (if startsWith s ''data/''
      then (let run = takeWhile isPathChar (drop 5 s);
                rest = dropWhile isPathChar (drop 5 s)
            in map_option (\<lambda>g. CHR ''/'' # g)
                 (giveBack (rev run) (case rest of [] \<Rightarrow> None | c # _ \<Rightarrow> Some c)))
      else None)"

fun matchDataPath :: "string \<Rightarrow> string option" where
  "matchDataPath [] = None"
| "matchDataPath (c # cs) =
     (case dataPathHere (c # cs) of Some g \<Rightarrow> Some g | None \<Rightarrow> matchDataPath cs)"

text \<open>The \<^verbatim>\<open>catch\<close> of the schema branch, lines 182--205.\<close>

definition schemaCompileErrors :: "'cfg collaborators \<Rightarrow> thrown \<Rightarrow> validationError list" where
  "schemaCompileErrors env t =
     (if (case thrownErrors t of None \<Rightarrow> False | Some errs \<Rightarrow> errs \<noteq> [])
      then map (\<lambda>e. e\<lparr> keyword := orElse (keyword e) ''schema'',
                        message := orElse (message e) ''Invalid JSON Schema'' \<rparr>)
             (formatValidationErrors env (orEmpty (thrownErrors t)))
      else (let msg = orElse (case thrownMessage t of None \<Rightarrow> [] | Some m \<Rightarrow> m)
                        ''Unknown schema error''
            in [\<lparr> instancePath = (case matchDataPath msg of None \<Rightarrow> [] | Some g \<Rightarrow> g),
                   schemaPath = ''#'',
                   keyword = ''schema'',
                   message = ''Invalid JSON Schema: '' @ msg,
                   params = [(''error'', JStr msg)],
                   data = None \<rparr>]))"

text \<open>\<^verbatim>\<open>resolveSchema(schemaId)\<close>, lines 379--384: the address of the schema, and the
  schema behind it.\<close>

definition resolveSchema :: "registry \<Rightarrow> string \<Rightarrow> jsonEntity option" where
  "resolveSchema r sid =
     (case mapGet (jsonSchemas r) (normalizeGtsId sid) of
        None \<Rightarrow> None
      | Some a \<Rightarrow> deref (heap r) a)"

text \<open>The \<^verbatim>\<open>loadSchema\<close> callback of \<^verbatim>\<open>createAjvInstance\<close>, lines 343--358.\<close>

definition loadSchema :: "'cfg collaborators \<Rightarrow> registry \<Rightarrow> string \<Rightarrow> loadResult" where
  "loadSchema env r uri =
     (let sid = decodeGtsId env uri
      in if startsWith sid ''https://json-schema.org'' \<or> startsWith sid ''http://json-schema.org''
         then LoadTrue
         else (case resolveSchema r sid of
                 None \<Rightarrow> LoadThrew (''Schema not found for $ref: '' @ sid)
               | Some s \<Rightarrow> LoadContent (content s)))"

text \<open>The object branch, lines 206--250; a thrown message that is \<^verbatim>\<open>undefined\<close>
  leaves the \<^verbatim>\<open>error\<close> parameter without a value, written \<open>JNull\<close>.\<close>

definition objectErrors :: "'cfg collaborators \<Rightarrow> registry \<Rightarrow> jsonEntity \<Rightarrow> validationError list" where
  "objectErrors env r e =
     (if \<not> truthy (schemaId e) then []
      else (let sid = orEmpty (schemaId e) in
        case resolveSchema r sid of
          None \<Rightarrow>
            [\<lparr> instancePath =
                  CHR ''/'' # (if truthy (selectedSchemaIdField e) then orEmpty (selectedSchemaIdField e)
                               else if truthy (selectedEntityIdField e) then orEmpty (selectedEntityIdField e)
                               else ''id''),
                schemaPath = ''#'',
                keyword = ''schema'',
                message = ''Schema not found: '' @ sid,
                params = [(''schemaId'', JStr sid)],
                data = None \<rparr>]
        | Some schema \<Rightarrow>
            (let caught = (\<lambda>t.
                   [\<lparr> instancePath = [],
                       schemaPath = ''#'',
                       keyword = ''validation'',
                       message = ''Validation error: '' @ showMessage (thrownMessage t),
                       params = [(''error'', case thrownMessage t of None \<Rightarrow> JNull | Some m \<Rightarrow> JStr m)],
                       data = None \<rparr>])
             in case compileAsync env (loadSchema env r) (content schema) of
                  CompileThrew t \<Rightarrow> caught t
                | Compiled validate \<Rightarrow>
                    (case validate (content e) of
                       ValidateThrew t \<Rightarrow> caught t
                     | Validated valid errs \<Rightarrow>
                         (if \<not> valid \<and> errs \<noteq> None
                          then formatValidationErrors env (orEmpty errs) else [])))))"

text \<open>The errors Phase B appends, lines 170--250.\<close>

definition phaseB :: "'cfg collaborators \<Rightarrow> registry \<Rightarrow> jsonEntity \<Rightarrow> validationError list" where
  "phaseB env r e =
     (if validationDisabled env then []
      else (case entClass e of
              JsonSchema \<Rightarrow>
                (case compileAsync env (loadSchema env r) (content e) of
                   CompileThrew t \<Rightarrow> schemaCompileErrors env t
                 | Compiled _ \<Rightarrow> [])
            | JsonObj \<Rightarrow> objectErrors env r e))"

text \<open>
  \<^verbatim>\<open>validateEntity(entity)\<close>, lines 133--251, for the object at address \<open>a\<close>: the
  validation result is replaced by an empty one, Phase A and Phase B fill it. Only
  the \<^verbatim>\<open>validation\<close> field of that object and the placeholder map are written.
\<close>

definition validateEntity :: "'cfg collaborators \<Rightarrow> addr \<Rightarrow> registry \<Rightarrow> registry" where
  "validateEntity env a r =
     (case deref (heap r) a of
        None \<Rightarrow> r
      | Some e \<Rightarrow>
          (case checkGtsRefs env r (gtsRefs e) (absentGtsEntities r, []) of
             (absent, errsA) \<Rightarrow>
               r\<lparr> heap := (heap r)[a := e\<lparr>validation := Some (errsA @ phaseB env r e)\<rparr>],
                  absentGtsEntities := absent \<rparr>))"

text \<open>
  \<^verbatim>\<open>validateEntities()\<close>, lines 257--267: two loops, each awaiting one
  \<^verbatim>\<open>validateEntity\<close> before the next starts. Besides the registry the model keeps
  the sequence of calls made so far. A call leaves both indices as they are, so
  iterating over the values read at the start of a loop is the live iteration.
\<close>

datatype event = SchemaValidated addr | ObjValidated addr

fun validateLoop ::
  "'cfg collaborators \<Rightarrow> (addr \<Rightarrow> event) \<Rightarrow> addr list \<Rightarrow> registry \<times> event list
     \<Rightarrow> registry \<times> event list" where
  "validateLoop env tag [] st = st"
| "validateLoop env tag (a # as) (r, tr) =
     validateLoop env tag as (validateEntity env a r, tr @ [tag a])"

definition validateSchemas :: "'cfg collaborators \<Rightarrow> registry \<times> event list \<Rightarrow> registry \<times> event list" where
  "validateSchemas env st = validateLoop env SchemaValidated (mapValues (jsonSchemas (fst st))) st"

definition validateObjs :: "'cfg collaborators \<Rightarrow> registry \<times> event list \<Rightarrow> registry \<times> event list" where
  "validateObjs env st = validateLoop env ObjValidated (mapValues (jsonObjs (fst st))) st"

definition validateEntitiesTrace :: "'cfg collaborators \<Rightarrow> registry \<Rightarrow> registry \<times> event list" where
  "validateEntitiesTrace env r = validateObjs env (validateSchemas env (r, []))"

definition validateEntities :: "'cfg collaborators \<Rightarrow> registry \<Rightarrow> registry" where
  "validateEntities env r = fst (validateEntitiesTrace env r)"

subsection \<open>\<^verbatim>\<open>ingestFiles\<close>\<close>

text \<open>\<^verbatim>\<open>/(^|[\\\/])\.gts-viewer[\\\/]/.test(file.path)\<close>, line 425.\<close>

definition isSeparator :: "char \<Rightarrow> bool" where
  "isSeparator c = (c = CHR ''/'' \<or> c = CHR 0x5C)"

definition viewerDirHere :: "string \<Rightarrow> bool" where
  "viewerDirHere s =
     (startsWith s ''.gts-viewer'' \<and>
      (case drop 11 s of [] \<Rightarrow> False | c # _ \<Rightarrow> isSeparator c))"

fun viewerDirAfterSeparator :: "string \<Rightarrow> bool" where
  "viewerDirAfterSeparator [] = False"
| "viewerDirAfterSeparator (c # cs) =
     ((isSeparator c \<and> viewerDirHere cs) \<or> viewerDirAfterSeparator cs)"

definition inViewerDir :: "string \<Rightarrow> bool" where
  "inViewerDir p = (viewerDirHere p \<or> viewerDirAfterSeparator p)"

text \<open>An element \<^verbatim>\<open>{ path, name, content }\<close> of the argument \<^verbatim>\<open>files\<close>.\<close>

record fileInput =
  inPath :: string
  inName :: string
  inContent :: json

text \<open>The loop of lines 422--432 and the call of line 433.\<close>

fun processFiles :: "'cfg collaborators \<Rightarrow> 'cfg \<Rightarrow> fileInput list \<Rightarrow> registry \<Rightarrow> registry" where
  "processFiles env cfg [] r = r"
| "processFiles env cfg (f # fs) r =
     processFiles env cfg fs
       (if inViewerDir (inPath f) then r
        else processFileContent env (inPath f) (inName f) (inContent f) cfg r)"

definition ingestFiles :: "'cfg collaborators \<Rightarrow> fileInput list \<Rightarrow> 'cfg \<Rightarrow> registry \<Rightarrow> registry" where
  "ingestFiles env files cfg r =
     validateEntities env (processFiles env (getGtsConfig env cfg) files r)"

section \<open>A concrete instance of the collaborators\<close>

text \<open>
  The examples below run the registry with a small extraction: an object document
  with a string field \<^verbatim>\<open>$id\<close> is a schema, one with a string field \<^verbatim>\<open>id\<close> is an
  object whose schema id is its field \<^verbatim>\<open>type\<close>; the references of a document are
  the string fields of its field \<^verbatim>\<open>refs\<close>, each written as source path and id. A
  document \<open>JNull\<close> stands for a file that failed to parse. Schema compilation
  always succeeds and every instance is valid.
\<close>

definition sampleRefs :: "(string \<times> json) list \<Rightarrow> gtsRef list" where
  "sampleRefs fs =
     (case map_of fs ''refs'' of
        Some (JObj rs) \<Rightarrow>
          concat (map (\<lambda>(sp, v). case v of JStr i \<Rightarrow> [\<lparr>refId = i, sourcePath = sp\<rparr>] | _ \<Rightarrow> []) rs)
      | _ \<Rightarrow> [])"

definition sampleEntity ::
  "jsonFile \<Rightarrow> nat option \<Rightarrow> json \<Rightarrow> (string \<times> json) list \<Rightarrow> entityClass \<Rightarrow> string \<Rightarrow> jsonEntity" where
  "sampleEntity jf sq c fs cl i =
     \<lparr> entId = normalizeGtsId i, entClass = cl, entFile = jf, listSequence = sq, content = c,
       gtsRefs = sampleRefs fs,
       schemaId = (case map_of fs ''type'' of Some (JStr t) \<Rightarrow> Some t | _ \<Rightarrow> None),
       selectedSchemaIdField = (if cl = JsonObj then Some ''type'' else None),
       selectedEntityIdField = Some (if cl = JsonSchema then ''$id'' else ''id''),
       isGtsEntity = True, validation = None \<rparr>"

definition sampleCreateEntity :: "jsonFile \<Rightarrow> nat option \<Rightarrow> json \<Rightarrow> unit \<Rightarrow> jsonEntity option" where
  "sampleCreateEntity jf sq c cfg =
     (case c of
        JObj fs \<Rightarrow>
          (case map_of fs ''$id'' of
             Some (JStr i) \<Rightarrow> Some (sampleEntity jf sq c fs JsonSchema i)
           | _ \<Rightarrow>
               (case map_of fs ''id'' of
                  Some (JStr i) \<Rightarrow> Some (sampleEntity jf sq c fs JsonObj i)
                | _ \<Rightarrow> None))
      | _ \<Rightarrow> None)"

definition sampleAbsentEntity :: "string \<Rightarrow> jsonEntity" where
  "sampleAbsentEntity i =
     \<lparr> entId = i, entClass = JsonObj,
       entFile = \<lparr>filePath = [], fileName = [], fileContent = JNull, fileValidation = None\<rparr>,
       listSequence = None, content = JNull, gtsRefs = [], schemaId = None,
       selectedSchemaIdField = None, selectedEntityIdField = None,
       isGtsEntity = False, validation = None \<rparr>"

definition sampleParseError :: validationError where
  "sampleParseError =
     \<lparr> instancePath = [], schemaPath = [], keyword = ''parse'',
       message = ''Invalid JSON'', params = [], data = None \<rparr>"

definition sampleCollaborators :: "unit collaborators" where
  "sampleCollaborators =
     \<lparr> parseValidation = (\<lambda>p n c. if c = JNull then Some [sampleParseError] else Some []),
       createEntity = sampleCreateEntity,
       getGtsConfig = (\<lambda>cfg. cfg),
       createAbsentEntity = sampleAbsentEntity,
       decodeGtsId = (\<lambda>uri. uri),
       validationDisabled = False,
       compileAsync = (\<lambda>load schema. Compiled (\<lambda>instance. Validated True None)),
       templateString = (\<lambda>v. []),
       jsonStringify = (\<lambda>v. []) \<rparr>"

text \<open>An object document with id \<open>i\<close>, schema id \<open>t\<close> and references \<open>rs\<close>.\<close>

definition objDoc :: "string \<Rightarrow> string \<Rightarrow> (string \<times> string) list \<Rightarrow> json" where
  "objDoc i t rs =
     JObj [(''id'', JStr i), (''type'', JStr t), (''refs'', JObj (map (\<lambda>(sp, x). (sp, JStr x)) rs))]"

text \<open>A schema document with id \<open>i\<close> and references \<open>rs\<close>.\<close>

definition schemaDoc :: "string \<Rightarrow> (string \<times> string) list \<Rightarrow> json" where
  "schemaDoc i rs =
     JObj [(''$id'', JStr i), (''refs'', JObj (map (\<lambda>(sp, x). (sp, JStr x)) rs))]"

section \<open>Auxiliary notions for the proofs\<close>

text \<open>The ids of the objects behind a list of addresses.\<close>

fun entityIds :: "jsonEntity list \<Rightarrow> addr list \<Rightarrow> string list" where
  "entityIds h [] = []"
| "entityIds h (a # as) =
     (case deref h a of None \<Rightarrow> entityIds h as | Some e \<Rightarrow> entId e # entityIds h as)"

text \<open>An entity without its validation result.\<close>

definition stripValidation :: "jsonEntity \<Rightarrow> jsonEntity" where
  "stripValidation e = e\<lparr>validation := None\<rparr>"

text \<open>The references Phase A reports: outside an examples region and in neither index.\<close>

definition unresolvedRefs :: "registry \<Rightarrow> gtsRef list \<Rightarrow> gtsRef list" where
  "unresolvedRefs r refs =
     filter (\<lambda>ref. \<not> isInExamples (sourcePath ref) \<and> \<not> refExists r (refId ref)) refs"

text \<open>The errors Phase A leaves on an entity.\<close>

definition integrityErrors :: "registry \<Rightarrow> jsonEntity \<Rightarrow> validationError list" where
  "integrityErrors r e = map refNotFound (unresolvedRefs r (gtsRefs e))"

text \<open>
  The entities the loop of \<^verbatim>\<open>processFileContent\<close> registers, in order: those the
  extraction returns and \<^verbatim>\<open>isGtsEntity()\<close> accepts.
\<close>

fun recognizedEntities ::
  "'cfg collaborators \<Rightarrow> jsonFile \<Rightarrow> 'cfg \<Rightarrow> bool \<Rightarrow> json list \<Rightarrow> nat \<Rightarrow> jsonEntity list" where
  "recognizedEntities env jf cfg arr [] idx = []"
| "recognizedEntities env jf cfg arr (c # cs) idx =
     (case createEntity env jf (if arr then Some idx else None) c cfg of
        None \<Rightarrow> []
      | Some e \<Rightarrow> if isGtsEntity e then [e] else [])
     @ recognizedEntities env jf cfg arr cs (Suc idx)"

fun registerAll :: "string \<Rightarrow> jsonEntity list \<Rightarrow> registry \<Rightarrow> registry" where
  "registerAll p [] r = r"
| "registerAll p (e # es) r = registerAll p es (registerEntity p e r)"

text \<open>The addresses that entities of class \<open>cl\<close> get when \<open>es\<close> is allocated from \<open>n\<close>.\<close>

fun newAddrs :: "entityClass \<Rightarrow> nat \<Rightarrow> jsonEntity list \<Rightarrow> addr list" where
  "newAddrs cl n [] = []"
| "newAddrs cl n (e # es) = (if entClass e = cl then [n] else []) @ newAddrs cl (Suc n) es"

text \<open>
  A source path as the sequence of its segments: a first field name, then fields
  (written with a dot) and array indices (written in brackets). Its pointer form
  has a slash before every field name and every index.
\<close>

datatype segment = Field string | Index string

definition plainName :: "string \<Rightarrow> bool" where
  "plainName f \<longleftrightarrow> CHR ''.'' \<notin> set f \<and> CHR ''['' \<notin> set f"

definition plainSegment :: "segment \<Rightarrow> bool" where
  "plainSegment s =
     (case s of Field f \<Rightarrow> plainName f | Index ds \<Rightarrow> ds \<noteq> [] \<and> (\<forall>c \<in> set ds. isDigit c))"

definition renderSegment :: "segment \<Rightarrow> string" where
  "renderSegment s = (case s of Field f \<Rightarrow> CHR ''.'' # f | Index ds \<Rightarrow> CHR ''['' # ds @ '']'')"

definition dotPath :: "string \<Rightarrow> segment list \<Rightarrow> string" where
  "dotPath f0 segs = f0 @ concat (map renderSegment segs)"

definition slashSegment :: "segment \<Rightarrow> string" where
  "slashSegment s = CHR ''/'' # (case s of Field f \<Rightarrow> f | Index ds \<Rightarrow> ds)"

definition slashPath :: "string \<Rightarrow> segment list \<Rightarrow> string" where
  "slashPath f0 segs = CHR ''/'' # f0 @ concat (map slashSegment segs)"

text \<open>The entity \<open>e\<close> with the validation result that \<^verbatim>\<open>validateEntity\<close> attaches in
  the registry \<open>r\<close>.\<close>

definition validatedEntity :: "'cfg collaborators \<Rightarrow> registry \<Rightarrow> jsonEntity \<Rightarrow> jsonEntity" where
  "validatedEntity env r e = e\<lparr>validation := Some (integrityErrors r e @ phaseB env r e)\<rparr>"

text \<open>The content of the schema an id resolves to.\<close>

definition schemaContents :: "registry \<Rightarrow> string \<Rightarrow> json option" where
  "schemaContents r sid = map_option content (resolveSchema r sid)"

text \<open>The objects the two loops of \<^verbatim>\<open>validateEntities\<close> visit.\<close>

definition mainAddrs :: "registry \<Rightarrow> addr set" where
  "mainAddrs r = set (mapValues (jsonSchemas r)) \<union> set (mapValues (jsonObjs r))"

text \<open>The ids for which validating the objects at \<open>as\<close> files a placeholder.\<close>

definition missingIn :: "registry \<Rightarrow> addr set \<Rightarrow> string set" where
  "missingIn r as =
     (\<Union>a \<in> {a \<in> as. a < length (heap r)}. refId ` set (unresolvedRefs r (gtsRefs (heap r ! a))))"

text \<open>Two registries with the same two indices and the same objects up to
  validation results.\<close>

definition sameStatics :: "registry \<Rightarrow> registry \<Rightarrow> bool" where
  "sameStatics r r' \<longleftrightarrow>
     jsonObjs r' = jsonObjs r \<and> jsonSchemas r' = jsonSchemas r
     \<and> map stripValidation (heap r') = map stripValidation (heap r)"

text \<open>
  The state of the indices, read through the references: each map as the mapping
  from its keys to the entities (or files) it holds, the two ownership maps with
  their lists of entities in order, the placeholder map and the default-file
  pointer. Addresses do not occur in it, and neither does the insertion order of
  a map.
\<close>

record indexState =
  objsOf :: "string \<Rightarrow> jsonEntity option"
  schemasOf :: "string \<Rightarrow> jsonEntity option"
  filesOf :: "string \<Rightarrow> jsonFile option"
  invalidOf :: "string \<Rightarrow> jsonFile option"
  fileObjsOf :: "string \<Rightarrow> jsonEntity list option"
  fileSchemasOf :: "string \<Rightarrow> jsonEntity list option"
  absentOf :: "string \<Rightarrow> jsonEntity option"
  defaultOf :: "string option"

definition indexState :: "registry \<Rightarrow> indexState" where
  "indexState r =
     \<lparr> objsOf = (\<lambda>k. map_option (\<lambda>a. heap r ! a) (mapGet (jsonObjs r) k)),
       schemasOf = (\<lambda>k. map_option (\<lambda>a. heap r ! a) (mapGet (jsonSchemas r) k)),
       filesOf = mapGet (jsonFiles r),
       invalidOf = mapGet (invalidFiles r),
       fileObjsOf = (\<lambda>k. map_option (map (\<lambda>a. heap r ! a)) (mapGet (jsonFileObjs r) k)),
       fileSchemasOf = (\<lambda>k. map_option (map (\<lambda>a. heap r ! a)) (mapGet (jsonFileSchemas r) k)),
       absentOf = mapGet (absentGtsEntities r),
       defaultOf = defaultFilePath r \<rparr>"

text \<open>The addresses a registry refers to.\<close>

definition reach :: "registry \<Rightarrow> addr set" where
  "reach r =
     {a. \<exists>k. mapGet (jsonObjs r) k = Some a} \<union> {a. \<exists>k. mapGet (jsonSchemas r) k = Some a}
     \<union> {a. \<exists>k l. mapGet (jsonFileObjs r) k = Some l \<and> a \<in> set l}
     \<union> {a. \<exists>k l. mapGet (jsonFileSchemas r) k = Some l \<and> a \<in> set l}"

text \<open>A JavaScript \<^verbatim>\<open>Map\<close> has each key once.\<close>

definition distinctKeys :: "registry \<Rightarrow> bool" where
  "distinctKeys r \<longleftrightarrow> distinct (map fst (jsonObjs r)) \<and> distinct (map fst (jsonSchemas r))"

text \<open>
  \<open>related f r1 r2\<close>: the registry \<open>r2\<close> is \<open>r1\<close> with every address \<open>a\<close> renamed to
  \<open>f a\<close>, up to the validation results of the objects that a validation pass
  visits and up to the placeholders that it files.
\<close>

definition related :: "(addr \<Rightarrow> addr) \<Rightarrow> registry \<Rightarrow> registry \<Rightarrow> bool" where
  "related f r1 r2 \<longleftrightarrow>
     (\<forall>k. mapGet (jsonObjs r2) k = map_option f (mapGet (jsonObjs r1) k))
     \<and> (\<forall>k. mapGet (jsonSchemas r2) k = map_option f (mapGet (jsonSchemas r1) k))
     \<and> (\<forall>k. mapGet (jsonFileObjs r2) k = map_option (map f) (mapGet (jsonFileObjs r1) k))
     \<and> (\<forall>k. mapGet (jsonFileSchemas r2) k = map_option (map f) (mapGet (jsonFileSchemas r1) k))
     \<and> (\<forall>k. mapGet (jsonFiles r2) k = mapGet (jsonFiles r1) k)
     \<and> (\<forall>k. mapGet (invalidFiles r2) k = mapGet (invalidFiles r1) k)
     \<and> defaultFilePath r2 = defaultFilePath r1
     \<and> (\<forall>i. i \<notin> missingIn r1 (mainAddrs r1) \<longrightarrow>
           mapGet (absentGtsEntities r2) i = mapGet (absentGtsEntities r1) i)
     \<and> inj_on f (reach r1)
     \<and> (\<forall>a \<in> reach r1.
           a < length (heap r1) \<and> f a < length (heap r2)
           \<and> stripValidation (heap r2 ! f a) = stripValidation (heap r1 ! a)
           \<and> (a \<notin> mainAddrs r1 \<longrightarrow> heap r2 ! f a = heap r1 ! a))"

text \<open>The address under which registering \<open>es\<close> from address \<open>n\<close> leaves the key \<open>k\<close> in
  the index of class \<open>cl\<close>: that of the last entity of \<open>es\<close> with this class and id.\<close>

fun regLookup :: "entityClass \<Rightarrow> nat \<Rightarrow> jsonEntity list \<Rightarrow> string \<Rightarrow> addr option" where
  "regLookup cl n [] k = None"
| "regLookup cl n (e # es) k =
     (case regLookup cl (Suc n) es k of
        Some a \<Rightarrow> Some a
      | None \<Rightarrow> if entClass e = cl \<and> entId e = k then Some n else None)"

text \<open>The ids of the entities of class \<open>cl\<close> among \<open>es\<close>.\<close>

definition idsOf :: "entityClass \<Rightarrow> jsonEntity list \<Rightarrow> string set" where
  "idsOf cl es = entId ` {e \<in> set es. entClass e = cl}"

text \<open>The entities \<^verbatim>\<open>processFileContent\<close> registers: none for a file that failed to parse.\<close>

definition fileEntities ::
  "'cfg collaborators \<Rightarrow> string \<Rightarrow> string \<Rightarrow> json \<Rightarrow> 'cfg \<Rightarrow> jsonEntity list" where
  "fileEntities env p n c cfg =
     (if hasParseErrors (newJsonFile env p n c) then []
      else recognizedEntities env (newJsonFile env p n c) cfg (isArray c) (normalizeToArray c) 0)"

text \<open>
  Every address a map holds is an object of the store, and the two indices have each
  key once. This holds for the registry the constructor builds and is kept by
  ingestion and validation.
\<close>

definition wellFormed :: "registry \<Rightarrow> bool" where
  "wellFormed r \<longleftrightarrow> distinctKeys r \<and> (\<forall>a \<in> reach r. a < length (heap r))"

text \<open>
  \<open>variantOf t u\<close>: the registry \<open>u\<close> has the maps of \<open>t\<close> and its objects up to
  validation results; objects no validation pass of \<open>t\<close> visits are the same, and
  so are the placeholders no such pass files. The registry after a validation
  pass is such a variant.
\<close>

definition variantOf :: "registry \<Rightarrow> registry \<Rightarrow> bool" where
  "variantOf t u \<longleftrightarrow>
     jsonObjs u = jsonObjs t \<and> jsonSchemas u = jsonSchemas t
     \<and> jsonFiles u = jsonFiles t \<and> invalidFiles u = invalidFiles t
     \<and> jsonFileObjs u = jsonFileObjs t \<and> jsonFileSchemas u = jsonFileSchemas t
     \<and> defaultFilePath u = defaultFilePath t
     \<and> map stripValidation (heap u) = map stripValidation (heap t)
     \<and> (\<forall>a. a < length (heap t) \<longrightarrow> a \<notin> mainAddrs t \<longrightarrow> heap u ! a = heap t ! a)
     \<and> (\<forall>i. i \<notin> missingIn t (mainAddrs t) \<longrightarrow>
           mapGet (absentGtsEntities u) i = mapGet (absentGtsEntities t) i)"

text \<open>The renaming: addresses below \<open>n\<close> stay, the others move up by \<open>d\<close>.\<close>

definition shiftFrom :: "nat \<Rightarrow> nat \<Rightarrow> addr \<Rightarrow> addr" where
  "shiftFrom n d a = (if a < n then a else a + d)"

section \<open>Example registries\<close>

definition fileIn :: "string \<Rightarrow> json \<Rightarrow> fileInput" where
  "fileIn p c = \<lparr>inPath = p, inName = p, inContent = c\<rparr>"

text \<open>One object \<open>O1\<close> whose reference to \<open>S2\<close> is dangling.\<close>

definition danglingDemo :: registry where
  "danglingDemo =
     ingestFiles sampleCollaborators
       [fileIn ''o.json'' (objDoc ''O1'' [] [(''link'', ''S2'')])] () newRegistry"



text \<open>One tracked file \<^verbatim>\<open>a.json\<close>.\<close>

definition oneFileDemo :: registry where
  "oneFileDemo =
     ingestFiles sampleCollaborators [fileIn ''a.json'' (objDoc ''X'' [] [])] () newRegistry"

text \<open>An object \<open>O1\<close> of schema \<open>S1\<close> and the schema \<open>S1\<close>, ingested object first
  and not yet validated.\<close>

definition schemaObjDemo :: registry where
  "schemaObjDemo =
     processFiles sampleCollaborators ()
       [fileIn ''o.json'' (objDoc ''O1'' ''S1'' []), fileIn ''s.json'' (schemaDoc ''S1'' [])]
       newRegistry"

text \<open>An object with four references, validated against an empty registry but
  for itself: one resolves (to the object itself), one is dangling at a nested
  path, one is dangling at the path \<^verbatim>\<open>root\<close>, one is dangling inside examples.\<close>

definition fourRefsDemo :: registry where
  "fourRefsDemo =
     processFiles sampleCollaborators ()
       [fileIn ''o.json''
          (objDoc ''O1'' []
             [(''self'', ''O1''), (''contact.gtsIid'', ''S2''), (''root'', ''S3''),
              (''examples[0].gtsIid'', ''S4'')])]
       newRegistry"

text \<open>A schema with three dangling references: two inside examples regions, one
  at a property that is named \<open>examples\<close>.\<close>

definition examplesDemo :: registry where
  "examplesDemo =
     processFiles sampleCollaborators ()
       [fileIn ''s.json''
          (schemaDoc ''S1''
             [(''examples[0].gtsIid'', ''S4''), (''allOf[0].examples'', ''S5''),
              (''properties.examples.gtsIid'', ''S6'')])]
       newRegistry"


text \<open>The schema \<open>S1\<close> and an object \<open>O1\<close> that names it four times: as its schema id
  in the prefixed form, and in two references, one bare and one prefixed.\<close>

definition prefixDemo :: registry where
  "prefixDemo =
     processFiles sampleCollaborators ()
       [fileIn ''s.json'' (schemaDoc ''S1'' []),
        fileIn ''o.json'' (objDoc ''O1'' ''gts://S1'' [(''bare'', ''S1''), (''full'', ''gts://S1'')])]
       newRegistry"

text \<open>A registry in which \<^verbatim>\<open>q.json\<close> owns the objects \<open>X\<close> and \<open>Y\<close>, and a file
  \<^verbatim>\<open>p.json\<close> that declares \<open>X\<close> as well, with a dangling reference.\<close>

definition reingestBase :: registry where
  "reingestBase =
     ingestFiles sampleCollaborators
       [fileIn ''q.json'' (JArr [objDoc ''X'' [] [], objDoc ''Y'' [] []])] () newRegistry"

definition reingestFile :: fileInput where
  "reingestFile = fileIn ''p.json'' (objDoc ''X'' [] [(''link'', ''Z'')])"

section \<open>Facts about the \<^verbatim>\<open>Map\<close> operations\<close>

lemma map_of_mapSet: "map_of (mapSet m k v) = (map_of m)(k \<mapsto> v)"
  by (induction m) (auto simp: fun_eq_iff)

lemma map_of_mapDelete: "map_of (mapDelete m k) = (map_of m)(k := None)"
  unfolding mapDelete_def by (induction m) (auto simp: fun_eq_iff)

lemma mapHas_iff: "mapHas m k \<longleftrightarrow> k \<in> fst ` set m"
  unfolding mapHas_def by (simp add: map_of_eq_None_iff)

lemma mapDelete_absent: "\<not> mapHas m k \<Longrightarrow> mapDelete m k = m"
  unfolding mapDelete_def mapHas_iff by (induction m) auto

lemma mapHas_mapDelete: "mapHas (mapDelete m k) k' \<longleftrightarrow> mapHas m k' \<and> k' \<noteq> k"
  unfolding mapHas_def by (simp add: map_of_mapDelete)

lemma mapHas_mapSet: "mapHas (mapSet m k v) k' \<longleftrightarrow> mapHas m k' \<or> k' = k"
  unfolding mapHas_def by (simp add: map_of_mapSet)

lemma mapGet_mapSet: "mapGet (mapSet m k v) k' = (if k' = k then Some v else mapGet m k')"
  unfolding mapGet_def by (simp add: map_of_mapSet)

lemma mapGet_mapDelete: "mapGet (mapDelete m k) k' = (if k' = k then None else mapGet m k')"
  unfolding mapGet_def by (simp add: map_of_mapDelete)

lemma mapDelete_commute: "mapDelete (mapDelete m k) k' = mapDelete (mapDelete m k') k"
  unfolding mapDelete_def by (induction m) auto

section \<open>\<^verbatim>\<open>invalidateFile\<close> field by field\<close>

lemma deleteIds_filter:
  "deleteIds h as m = filter (\<lambda>p. fst p \<notin> set (entityIds h as)) m"
proof (induction as arbitrary: m)
  case Nil
  show ?case by simp
next
  case (Cons a as)
  show ?case
  proof (cases "deref h a")
    case None
    then show ?thesis using Cons.IH by simp
  next
    case (Some e)
    have "deleteIds h (a # as) m = deleteIds h as (mapDelete m (entId e))"
      using Some by simp
    also have "\<dots> = filter (\<lambda>p. fst p \<notin> set (entityIds h as)) (mapDelete m (entId e))"
      by (rule Cons.IH)
    also have "\<dots> = filter (\<lambda>p. fst p \<notin> set (entityIds h (a # as))) m"
      using Some unfolding mapDelete_def by (auto intro: filter_cong)
    finally show ?thesis .
  qed
qed

lemma invalidateFile_heap [simp]: "heap (invalidateFile p r) = heap r"
  unfolding invalidateFile_def by (simp add: Let_def split: option.splits)

lemma invalidateFile_absent [simp]:
  "absentGtsEntities (invalidateFile p r) = absentGtsEntities r"
  unfolding invalidateFile_def by (simp add: Let_def split: option.splits)

lemma invalidateFile_default [simp]:
  "defaultFilePath (invalidateFile p r) = defaultFilePath r"
  unfolding invalidateFile_def by (simp add: Let_def split: option.splits)

lemma invalidateFile_fetchCache [simp]:
  "fetchCache (invalidateFile p r) = fetchCache r"
  unfolding invalidateFile_def by (simp add: Let_def split: option.splits)

lemma invalidateFile_jsonFiles: "jsonFiles (invalidateFile p r) = mapDelete (jsonFiles r) p"
  unfolding invalidateFile_def by (simp add: Let_def mapDelete_absent split: option.splits)

lemma invalidateFile_invalidFiles:
  "invalidFiles (invalidateFile p r) = mapDelete (invalidFiles r) p"
  unfolding invalidateFile_def by (simp add: Let_def mapDelete_absent split: option.splits)

lemma invalidateFile_jsonObjs:
  "jsonObjs (invalidateFile p r) =
     filter (\<lambda>kv. fst kv \<notin> set (entityIds (heap r) (orEmpty (mapGet (jsonFileObjs r) p))))
       (jsonObjs r)"
  unfolding invalidateFile_def
  by (simp add: Let_def deleteIds_filter orEmpty_def split: option.splits)

lemma invalidateFile_jsonSchemas:
  "jsonSchemas (invalidateFile p r) =
     filter (\<lambda>kv. fst kv \<notin> set (entityIds (heap r) (orEmpty (mapGet (jsonFileSchemas r) p))))
       (jsonSchemas r)"
  unfolding invalidateFile_def
  by (simp add: Let_def deleteIds_filter orEmpty_def split: option.splits)

lemma invalidateFile_jsonFileObjs:
  "jsonFileObjs (invalidateFile p r) =
     (if mapHas (jsonFileObjs r) p then mapSet (mapDelete (jsonFileObjs r) p) p []
      else jsonFileObjs r)"
  unfolding invalidateFile_def mapHas_def mapGet_def
  by (simp add: Let_def split: option.splits)

lemma invalidateFile_jsonFileSchemas:
  "jsonFileSchemas (invalidateFile p r) =
     (if mapHas (jsonFileSchemas r) p then mapSet (mapDelete (jsonFileSchemas r) p) p []
      else jsonFileSchemas r)"
  unfolding invalidateFile_def mapHas_def mapGet_def
  by (simp add: Let_def split: option.splits)

lemma map_of_filter_keys:
  "map_of (filter (\<lambda>kv. fst kv \<notin> S) m) k = (if k \<in> S then None else map_of m k)"
  by (induction m) auto

section \<open>The default-file pointer\<close>

lemma getDefaultFilePath_set:
  "p \<noteq> [] \<Longrightarrow> getDefaultFilePath (invalidateFile p (setDefaultFile (Some p) r)) = Some p"
  by (simp add: getDefaultFilePath_def setDefaultFile_def orNull_def truthy_def)

lemma getDefaultFile_invalidated:
  "p \<noteq> [] \<Longrightarrow> getDefaultFile (invalidateFile p (setDefaultFile (Some p) r)) = None"
  by (simp add: getDefaultFile_def setDefaultFile_def truthy_def invalidateFile_jsonFiles
      mapGet_mapDelete)

lemma setDefaultFile_fallback:
  "\<not> truthy arg \<Longrightarrow>
   defaultFilePath (setDefaultFile arg r) =
     (case jsonFiles r of
        [] \<Rightarrow> None
      | kf # _ \<Rightarrow> if filePath (snd kf) = [] then None else Some (filePath (snd kf)))"
  by (simp add: setDefaultFile_def firstFilePath_def mapValues_def orNull_def truthy_def
      split: list.splits)

section \<open>What ingestion and validation leave alone\<close>

lemma stripValidation_update [simp]:
  "stripValidation (e\<lparr>validation := v\<rparr>) = stripValidation e"
  by (simp add: stripValidation_def)

lemma stripValidation_fields [simp]:
  "entId (stripValidation e) = entId e"
  "entClass (stripValidation e) = entClass e"
  "content (stripValidation e) = content e"
  "gtsRefs (stripValidation e) = gtsRefs e"
  "schemaId (stripValidation e) = schemaId e"
  by (simp_all add: stripValidation_def)

lemma stripValidation_eqD:
  assumes "stripValidation e = stripValidation e'"
  shows "entId e = entId e'" "entClass e = entClass e'" "content e = content e'"
    "gtsRefs e = gtsRefs e'" "schemaId e = schemaId e'"
    "selectedSchemaIdField e = selectedSchemaIdField e'"
    "selectedEntityIdField e = selectedEntityIdField e'"
proof -
  have "entId (stripValidation e) = entId (stripValidation e')" using assms by simp
  then show "entId e = entId e'" by simp
  have "entClass (stripValidation e) = entClass (stripValidation e')" using assms by simp
  then show "entClass e = entClass e'" by simp
  have "content (stripValidation e) = content (stripValidation e')" using assms by simp
  then show "content e = content e'" by simp
  have "gtsRefs (stripValidation e) = gtsRefs (stripValidation e')" using assms by simp
  then show "gtsRefs e = gtsRefs e'" by simp
  have "schemaId (stripValidation e) = schemaId (stripValidation e')" using assms by simp
  then show "schemaId e = schemaId e'" by simp
  have "selectedSchemaIdField (stripValidation e) = selectedSchemaIdField (stripValidation e')"
    using assms by simp
  then show "selectedSchemaIdField e = selectedSchemaIdField e'"
    by (simp add: stripValidation_def)
  have "selectedEntityIdField (stripValidation e) = selectedEntityIdField (stripValidation e')"
    using assms by simp
  then show "selectedEntityIdField e = selectedEntityIdField e'"
    by (simp add: stripValidation_def)
qed

lemma map_update_same:
  assumes "a < length xs" and "f y = f (xs ! a)"
  shows "map f (xs[a := y]) = map f xs"
proof -
  have "map f (xs[a := y]) = (map f xs)[a := f y]" by (rule map_update)
  also have "\<dots> = (map f xs)[a := (map f xs) ! a]" using assms by simp
  also have "\<dots> = map f xs" by (rule list_update_id)
  finally show ?thesis .
qed

subsection \<open>Phase A as a filter\<close>

lemma checkGtsRefs_errors:
  "snd (checkGtsRefs env r refs (ab, errs)) = errs @ map refNotFound (unresolvedRefs r refs)"
  by (induction refs arbitrary: ab errs) (simp_all add: unresolvedRefs_def)

lemma checkGtsRefs_absent:
  "map_of (fst (checkGtsRefs env r refs (ab, errs))) i =
     (if i \<in> refId ` set (unresolvedRefs r refs) then Some (createAbsentEntity env i)
      else map_of ab i)"
proof (induction refs arbitrary: ab errs)
  case Nil
  show ?case by (simp add: unresolvedRefs_def)
next
  case (Cons ref refs)
  show ?case
  proof (cases "\<not> isInExamples (sourcePath ref) \<and> \<not> refExists r (refId ref)")
    case True
    then show ?thesis
      using Cons.IH [of "mapSet ab (refId ref) (createAbsentEntity env (refId ref))" "errs @ [refNotFound ref]"]
      by (auto simp: unresolvedRefs_def map_of_mapSet)
  next
    case False
    then show ?thesis
      using Cons.IH [of ab errs] by (auto simp: unresolvedRefs_def)
  qed
qed

subsection \<open>\<^verbatim>\<open>validateEntity\<close>\<close>

lemma validateEntity_dangling: "deref (heap r) a = None \<Longrightarrow> validateEntity env a r = r"
  by (simp add: validateEntity_def)

lemma validateEntity_heap:
  assumes "deref (heap r) a = Some e"
  shows "heap (validateEntity env a r) =
           (heap r)[a := e\<lparr>validation := Some (integrityErrors r e @ phaseB env r e)\<rparr>]"
proof -
  obtain ab errsA where c: "checkGtsRefs env r (gtsRefs e) (absentGtsEntities r, []) = (ab, errsA)"
    by (cases "checkGtsRefs env r (gtsRefs e) (absentGtsEntities r, [])")
  have "errsA = snd (checkGtsRefs env r (gtsRefs e) (absentGtsEntities r, []))"
    using c by simp
  then have "errsA = integrityErrors r e"
    by (simp add: checkGtsRefs_errors integrityErrors_def)
  then show ?thesis using assms c by (simp add: validateEntity_def)
qed

lemma validateEntity_absent:
  assumes "deref (heap r) a = Some e"
  shows "absentGtsEntities (validateEntity env a r) =
           fst (checkGtsRefs env r (gtsRefs e) (absentGtsEntities r, []))"
  using assms by (simp add: validateEntity_def split: prod.splits)

lemma validateEntity_maps [simp]:
  "jsonObjs (validateEntity env a r) = jsonObjs r"
  "jsonSchemas (validateEntity env a r) = jsonSchemas r"
  "jsonFiles (validateEntity env a r) = jsonFiles r"
  "invalidFiles (validateEntity env a r) = invalidFiles r"
  "jsonFileObjs (validateEntity env a r) = jsonFileObjs r"
  "jsonFileSchemas (validateEntity env a r) = jsonFileSchemas r"
  "fetchCache (validateEntity env a r) = fetchCache r"
  "defaultFilePath (validateEntity env a r) = defaultFilePath r"
  by (simp_all add: validateEntity_def split: option.splits prod.splits)

lemma validateEntity_length [simp]: "length (heap (validateEntity env a r)) = length (heap r)"
  by (simp add: validateEntity_def split: option.splits prod.splits)

lemma validateEntity_strip:
  "map stripValidation (heap (validateEntity env a r)) = map stripValidation (heap r)"
proof (cases "deref (heap r) a")
  case None
  then show ?thesis by (simp add: validateEntity_dangling)
next
  case (Some e)
  then have a: "a < length (heap r)" and e: "e = heap r ! a"
    by (auto simp: deref_def split: if_splits)
  show ?thesis
    unfolding validateEntity_heap [OF Some]
    by (rule map_update_same [OF a]) (simp add: e)
qed

subsection \<open>The validation loops\<close>

lemma validateLoop_trace: "snd (validateLoop env tag as (r, tr)) = tr @ map tag as"
  by (induction as arbitrary: r tr) simp_all

lemma validateLoop_maps:
  "jsonObjs (fst (validateLoop env tag as (r, tr))) = jsonObjs r
   \<and> jsonSchemas (fst (validateLoop env tag as (r, tr))) = jsonSchemas r
   \<and> jsonFiles (fst (validateLoop env tag as (r, tr))) = jsonFiles r
   \<and> invalidFiles (fst (validateLoop env tag as (r, tr))) = invalidFiles r
   \<and> jsonFileObjs (fst (validateLoop env tag as (r, tr))) = jsonFileObjs r
   \<and> jsonFileSchemas (fst (validateLoop env tag as (r, tr))) = jsonFileSchemas r
   \<and> fetchCache (fst (validateLoop env tag as (r, tr))) = fetchCache r
   \<and> defaultFilePath (fst (validateLoop env tag as (r, tr))) = defaultFilePath r"
  by (induction as arbitrary: r tr) simp_all

lemma validateLoop_strip:
  "map stripValidation (heap (fst (validateLoop env tag as (r, tr)))) = map stripValidation (heap r)"
  by (induction as arbitrary: r tr) (simp_all add: validateEntity_strip)

lemma validateSchemas_maps:
  "jsonObjs (fst (validateSchemas env (r, tr))) = jsonObjs r
   \<and> jsonSchemas (fst (validateSchemas env (r, tr))) = jsonSchemas r
   \<and> jsonFiles (fst (validateSchemas env (r, tr))) = jsonFiles r
   \<and> invalidFiles (fst (validateSchemas env (r, tr))) = invalidFiles r
   \<and> jsonFileObjs (fst (validateSchemas env (r, tr))) = jsonFileObjs r
   \<and> jsonFileSchemas (fst (validateSchemas env (r, tr))) = jsonFileSchemas r
   \<and> fetchCache (fst (validateSchemas env (r, tr))) = fetchCache r
   \<and> defaultFilePath (fst (validateSchemas env (r, tr))) = defaultFilePath r"
  unfolding validateSchemas_def fst_conv by (rule validateLoop_maps)

lemma validateEntities_eq:
  "validateEntities env r =
     fst (validateLoop env ObjValidated (mapValues (jsonObjs r))
            (validateLoop env SchemaValidated (mapValues (jsonSchemas r)) (r, [])))"
proof -
  obtain r1 tr1 where s: "validateSchemas env (r, []) = (r1, tr1)"
    by (cases "validateSchemas env (r, [])")
  have "jsonObjs r1 = jsonObjs r"
    using validateSchemas_maps [of env r "[]"] s by simp
  then show ?thesis
    using s by (simp add: validateEntities_def validateEntitiesTrace_def validateObjs_def
        validateSchemas_def)
qed

lemma validateEntities_maps:
  "jsonObjs (validateEntities env r) = jsonObjs r
   \<and> jsonSchemas (validateEntities env r) = jsonSchemas r
   \<and> jsonFiles (validateEntities env r) = jsonFiles r
   \<and> invalidFiles (validateEntities env r) = invalidFiles r
   \<and> jsonFileObjs (validateEntities env r) = jsonFileObjs r
   \<and> jsonFileSchemas (validateEntities env r) = jsonFileSchemas r
   \<and> fetchCache (validateEntities env r) = fetchCache r
   \<and> defaultFilePath (validateEntities env r) = defaultFilePath r"
proof -
  obtain r1 tr1 where s: "validateLoop env SchemaValidated (mapValues (jsonSchemas r)) (r, []) = (r1, tr1)"
    by (cases "validateLoop env SchemaValidated (mapValues (jsonSchemas r)) (r, [])")
  have m1: "jsonObjs r1 = jsonObjs r \<and> jsonSchemas r1 = jsonSchemas r
      \<and> jsonFiles r1 = jsonFiles r \<and> invalidFiles r1 = invalidFiles r
      \<and> jsonFileObjs r1 = jsonFileObjs r \<and> jsonFileSchemas r1 = jsonFileSchemas r
      \<and> fetchCache r1 = fetchCache r \<and> defaultFilePath r1 = defaultFilePath r"
    using validateLoop_maps [of env SchemaValidated "mapValues (jsonSchemas r)" r "[]"] s by simp
  show ?thesis
    unfolding validateEntities_eq s
    using validateLoop_maps [of env ObjValidated "mapValues (jsonObjs r)" r1 tr1] m1 by simp
qed

lemma validateEntities_strip:
  "map stripValidation (heap (validateEntities env r)) = map stripValidation (heap r)"
proof -
  obtain r1 tr1 where s: "validateLoop env SchemaValidated (mapValues (jsonSchemas r)) (r, []) = (r1, tr1)"
    by (cases "validateLoop env SchemaValidated (mapValues (jsonSchemas r)) (r, [])")
  have "map stripValidation (heap r1) = map stripValidation (heap r)"
    using validateLoop_strip [of env SchemaValidated "mapValues (jsonSchemas r)" r "[]"] s by simp
  then show ?thesis
    unfolding validateEntities_eq s
    using validateLoop_strip [of env ObjValidated "mapValues (jsonObjs r)" r1 tr1] by simp
qed

subsection \<open>Ingestion and the default-file pointer\<close>

lemma registerEntity_untouched [simp]:
  "jsonFiles (registerEntity p e r) = jsonFiles r"
  "invalidFiles (registerEntity p e r) = invalidFiles r"
  "absentGtsEntities (registerEntity p e r) = absentGtsEntities r"
  "fetchCache (registerEntity p e r) = fetchCache r"
  "defaultFilePath (registerEntity p e r) = defaultFilePath r"
  "heap (registerEntity p e r) = heap r @ [e]"
  by (simp_all add: registerEntity_def Let_def)

lemma forEachEntity_untouched:
  "jsonFiles (fst (forEachEntity env jf p cfg arr cs idx (r, has))) = jsonFiles r
   \<and> invalidFiles (fst (forEachEntity env jf p cfg arr cs idx (r, has))) = invalidFiles r
   \<and> absentGtsEntities (fst (forEachEntity env jf p cfg arr cs idx (r, has))) = absentGtsEntities r
   \<and> fetchCache (fst (forEachEntity env jf p cfg arr cs idx (r, has))) = fetchCache r
   \<and> defaultFilePath (fst (forEachEntity env jf p cfg arr cs idx (r, has))) = defaultFilePath r"
proof (induction cs arbitrary: idx r has)
  case Nil
  show ?case by simp
next
  case (Cons c cs)
  show ?case
  proof (cases "createEntity env jf (if arr then Some idx else None) c cfg")
    case None
    then show ?thesis using Cons.IH [of "Suc idx" r has] by simp
  next
    case (Some e)
    show ?thesis
    proof (cases "isGtsEntity e")
      case True
      then show ?thesis using Some Cons.IH [of "Suc idx" "registerEntity p e r" True] by simp
    next
      case False
      then show ?thesis using Some Cons.IH [of "Suc idx" r has] by simp
    qed
  qed
qed

lemma processFileContent_default [simp]:
  "defaultFilePath (processFileContent env p n c cfg r) = defaultFilePath r"
proof -
  obtain r2 h where l: "forEachEntity env (newJsonFile env p n c) p cfg (isArray c)
      (normalizeToArray c) 0 (invalidateFile p r, False) = (r2, h)"
    by (cases "forEachEntity env (newJsonFile env p n c) p cfg (isArray c)
      (normalizeToArray c) 0 (invalidateFile p r, False)")
  have "defaultFilePath r2 = defaultFilePath r"
    using forEachEntity_untouched [of env "newJsonFile env p n c" p cfg "isArray c"
        "normalizeToArray c" 0 "invalidateFile p r" False] l by simp
  then show ?thesis using l by (simp add: processFileContent_def Let_def)
qed

lemma processFiles_default [simp]:
  "defaultFilePath (processFiles env cfg fs r) = defaultFilePath r"
  by (induction fs arbitrary: r) simp_all

lemma ingestFiles_default [simp]:
  "defaultFilePath (ingestFiles env fs cfg r) = defaultFilePath r"
  by (simp add: ingestFiles_def validateEntities_maps)

subsection \<open>Validation results once attached stay attached\<close>

lemma validateEntity_validated_self:
  assumes "a < length (heap r)"
  shows "validation (heap (validateEntity env a r) ! a) \<noteq> None"
proof -
  have d: "deref (heap r) a = Some (heap r ! a)" using assms by (simp add: deref_def)
  show ?thesis unfolding validateEntity_heap [OF d] using assms by simp
qed

lemma validateEntity_validated_keeps:
  assumes "b < length (heap r)" and "validation (heap r ! b) \<noteq> None"
  shows "validation (heap (validateEntity env a r) ! b) \<noteq> None"
proof (cases "deref (heap r) a")
  case None
  then show ?thesis using assms by (simp add: validateEntity_dangling)
next
  case (Some e)
  show ?thesis
    unfolding validateEntity_heap [OF Some] using assms by (cases "a = b") simp_all
qed

lemma validateLoop_validated:
  assumes "a < length (heap r)" and "a \<in> set as \<or> validation (heap r ! a) \<noteq> None"
  shows "validation (heap (fst (validateLoop env tag as (r, tr))) ! a) \<noteq> None"
  using assms
proof (induction as arbitrary: r tr)
  case Nil
  then show ?case by simp
next
  case (Cons x xs)
  have len: "a < length (heap (validateEntity env x r))" using Cons.prems(1) by simp
  have "a \<in> set xs \<or> validation (heap (validateEntity env x r) ! a) \<noteq> None"
  proof (cases "a = x")
    case True
    then show ?thesis using validateEntity_validated_self [OF Cons.prems(1), of env] by simp
  next
    case False
    then show ?thesis
      using Cons.prems validateEntity_validated_keeps [of a r env x] by auto
  qed
  then show ?case using Cons.IH [OF len] by simp
qed

subsection \<open>The integrity error of a reference\<close>

lemma refNotFound_inj: "refNotFound x = refNotFound y \<Longrightarrow> x = y"
proof -
  assume eq: "refNotFound x = refNotFound y"
  then have "params (refNotFound x) = params (refNotFound y)" by simp
  then have "refId x = refId y \<and> sourcePath x = sourcePath y"
    by (simp add: refNotFound_def)
  then show "x = y" by simp
qed

lemma count_list_map_inj:
  assumes "\<And>a b. f a = f b \<Longrightarrow> a = b"
  shows "count_list (map f xs) (f x) = count_list xs x"
  using assms by (induction xs) auto

lemma count_list_filter: "count_list (filter P xs) x = (if P x then count_list xs x else 0)"
  by (induction xs) auto

lemma count_integrityErrors:
  "count_list (integrityErrors r e) (refNotFound ref) =
     (if \<not> isInExamples (sourcePath ref) \<and> \<not> refExists r (refId ref)
      then count_list (gtsRefs e) ref else 0)"
proof -
  have "count_list (integrityErrors r e) (refNotFound ref)
      = count_list (unresolvedRefs r (gtsRefs e)) ref"
    unfolding integrityErrors_def by (rule count_list_map_inj) (rule refNotFound_inj)
  then show ?thesis by (simp add: unresolvedRefs_def count_list_filter)
qed

lemma validateEntity_validation:
  assumes "deref (heap r) a = Some e"
  shows "validation (heap (validateEntity env a r) ! a)
           = Some (integrityErrors r e @ phaseB env r e)"
proof -
  have "a < length (heap r)" using assms by (simp add: deref_def split: if_splits)
  then show ?thesis unfolding validateEntity_heap [OF assms] by simp
qed

subsection \<open>The examples regions\<close>

lemma startsWith_append [simp]: "startsWith (pre @ t) pre"
  by (simp add: startsWith_def)

lemma startsWithD: "startsWith s pre \<Longrightarrow> s = pre @ drop (length pre) s"
  unfolding startsWith_def by (metis append_take_drop_id)

lemma examplesHere_tail:
  assumes "s = ''examples'' @ t"
  shows "examplesHere s \<longleftrightarrow> (t = [] \<or> hd t = CHR ''['' \<or> hd t = CHR ''.'')"
proof -
  have d: "drop 8 s = t" using assms by simp
  have st: "startsWith s ''examples''" using assms by (simp add: startsWith_def)
  show ?thesis
    unfolding examplesHere_def d using st by (cases t) simp_all
qed

lemma examplesHereD: "examplesHere s \<Longrightarrow> startsWith s ''examples''"
  by (simp add: examplesHere_def)

lemma takeWhile_digits:
  assumes "\<forall>c \<in> set ds. isDigit c"
  shows "takeWhile isDigit (ds @ CHR '']'' # t) = ds"
    and "dropWhile isDigit (ds @ CHR '']'' # t) = CHR '']'' # t"
proof -
  have nd: "\<not> isDigit CHR '']''" by (simp add: isDigit_def)
  show "takeWhile isDigit (ds @ CHR '']'' # t) = ds"
    using assms nd by (simp add: takeWhile_append2)
  show "dropWhile isDigit (ds @ CHR '']'' # t) = CHR '']'' # t"
    using assms nd by (simp add: dropWhile_append2)
qed

lemma indexThenExamples_form:
  assumes "s = CHR ''['' # (ds @ CHR '']'' # CHR ''.'' # w)"
    and "ds \<noteq> []" and "\<forall>c \<in> set ds. isDigit c" and "examplesHere w"
  shows "indexThenExamples s"
proof -
  have tw: "takeWhile isDigit (ds @ CHR '']'' # CHR ''.'' # w) = ds"
    and dw: "dropWhile isDigit (ds @ CHR '']'' # CHR ''.'' # w) = CHR '']'' # CHR ''.'' # w"
    using takeWhile_digits [OF assms(3)] by blast+
  have st: "startsWith (CHR '']'' # CHR ''.'' # w) ''].''"
    by (simp add: startsWith_def)
  show ?thesis
    unfolding assms(1) indexThenExamples_def list.case tw dw
    using assms(2,4) st by simp
qed

lemma combinatorExamplesHere_form:
  assumes "s = kw @ CHR ''['' # (ds @ CHR '']'' # CHR ''.'' # w)"
    and "kw = ''allOf'' \<or> kw = ''anyOf'' \<or> kw = ''oneOf''"
    and "ds \<noteq> []" and "\<forall>c \<in> set ds. isDigit c" and "examplesHere w"
  shows "combinatorExamplesHere s"
proof -
  have len: "length kw = 5" using assms(2) by auto
  have d: "drop 5 s = CHR ''['' # (ds @ CHR '']'' # CHR ''.'' # w)"
    using len assms(1) by simp
  have st: "startsWith s kw" using assms(1) by (simp add: startsWith_def)
  have i: "indexThenExamples (drop 5 s)"
    using d assms(3-5) by (rule indexThenExamples_form)
  show ?thesis
    unfolding combinatorExamplesHere_def using st i assms(2) by auto
qed

lemma combinatorExamplesSomewhere_append:
  "combinatorExamplesHere s \<Longrightarrow> combinatorExamplesSomewhere (pre @ s)"
proof (induction pre)
  case Nil
  then show ?case by (cases s) (simp_all add: combinatorExamplesHere_def startsWith_def)
next
  case (Cons c pre)
  then show ?case by simp
qed

lemma isInExamples_root:
  assumes "sp = ''examples'' @ t" and "t = [] \<or> hd t = CHR ''['' \<or> hd t = CHR ''.''"
  shows "isInExamples sp"
  using examplesHere_tail [OF assms(1)] assms(2) by (simp add: isInExamples_def)

lemma isInExamples_combinator:
  assumes "sp = pre @ kw @ ''['' @ ds @ ''].examples'' @ t"
    and "kw = ''allOf'' \<or> kw = ''anyOf'' \<or> kw = ''oneOf''"
    and "ds \<noteq> []" and "\<forall>c \<in> set ds. isDigit c"
    and "t = [] \<or> hd t = CHR ''['' \<or> hd t = CHR ''.''"
  shows "isInExamples sp"
proof -
  define w where "w = ''examples'' @ t"
  define s where "s = kw @ CHR ''['' # (ds @ CHR '']'' # CHR ''.'' # w)"
  have w: "examplesHere w" using examplesHere_tail [OF w_def] assms(5) by simp
  have "combinatorExamplesHere s"
    using s_def assms(2-4) w by (rule combinatorExamplesHere_form)
  then have "combinatorExamplesSomewhere (pre @ s)"
    by (rule combinatorExamplesSomewhere_append)
  moreover have "sp = pre @ s" using assms(1) by (simp add: s_def w_def)
  ultimately show ?thesis by (simp add: isInExamples_def)
qed

lemma startsWithE:
  assumes "startsWith s pre"
  obtains rest where "s = pre @ rest"
  using startsWithD [OF assms] by blast

lemma indexThenExamplesD:
  assumes "indexThenExamples s"
  shows "\<exists>u v. s = u @ ''].examples'' @ v"
proof -
  obtain t where s: "s = CHR ''['' # t"
    and st: "startsWith (dropWhile isDigit t) ''].''"
    and ex: "examplesHere (drop 2 (dropWhile isDigit t))"
    using assms by (auto simp: indexThenExamples_def split: list.splits)
  obtain r1 where a: "dropWhile isDigit t = ''].'' @ r1"
    using st by (rule startsWithE)
  have "drop 2 (dropWhile isDigit t) = r1" unfolding a by simp
  then have "startsWith r1 ''examples''" using ex examplesHereD by simp
  then obtain r2 where b: "r1 = ''examples'' @ r2" by (rule startsWithE)
  have "t = takeWhile isDigit t @ dropWhile isDigit t" by simp
  also have "\<dots> = takeWhile isDigit t @ ''].examples'' @ r2"
    unfolding a b by simp
  finally have "s = (CHR ''['' # takeWhile isDigit t) @ ''].examples'' @ r2"
    using s by simp
  then show ?thesis by blast
qed

lemma combinatorExamplesHereD:
  assumes "combinatorExamplesHere s"
  shows "\<exists>u v. s = u @ ''].examples'' @ v"
proof -
  have "indexThenExamples (drop 5 s)" using assms by (simp add: combinatorExamplesHere_def)
  then obtain u v where "drop 5 s = u @ ''].examples'' @ v"
    using indexThenExamplesD by blast
  then have "s = (take 5 s @ u) @ ''].examples'' @ v"
    by (metis append_assoc append_take_drop_id)
  then show ?thesis by blast
qed

lemma combinatorExamplesSomewhereD:
  "combinatorExamplesSomewhere s \<Longrightarrow> \<exists>u v. s = u @ ''].examples'' @ v"
proof (induction s)
  case Nil
  then show ?case by simp
next
  case (Cons c cs)
  show ?case
  proof (cases "combinatorExamplesHere (c # cs)")
    case True
    then show ?thesis by (rule combinatorExamplesHereD)
  next
    case False
    then have "combinatorExamplesSomewhere cs" using Cons.prems by simp
    then obtain u v where "cs = u @ ''].examples'' @ v" using Cons.IH by blast
    then have "c # cs = (c # u) @ ''].examples'' @ v" by simp
    then show ?thesis by blast
  qed
qed

lemma not_isInExamples:
  assumes "\<not> startsWith sp ''examples''" and "\<forall>u v. sp \<noteq> u @ ''].examples'' @ v"
  shows "\<not> isInExamples sp"
proof
  assume "isInExamples sp"
  then consider "examplesHere sp" | "combinatorExamplesSomewhere sp"
    by (auto simp: isInExamples_def)
  then show False
  proof cases
    case 1
    then show False using assms(1) examplesHereD by blast
  next
    case 2
    then show False using assms(2) combinatorExamplesSomewhereD by blast
  qed
qed

lemma no_bracket_no_examples_index:
  assumes "CHR '']'' \<notin> set sp"
  shows "\<forall>u v. sp \<noteq> u @ ''].examples'' @ v"
proof (intro allI notI)
  fix u v assume "sp = u @ ''].examples'' @ v"
  then have "CHR '']'' \<in> set sp" by simp
  then show False using assms by simp
qed

lemma refNotFound_in_integrityErrors:
  "refNotFound ref \<in> set (integrityErrors r e) \<longleftrightarrow>
     ref \<in> set (gtsRefs e) \<and> \<not> isInExamples (sourcePath ref) \<and> \<not> refExists r (refId ref)"
proof -
  have "refNotFound ref \<in> set (integrityErrors r e) \<longleftrightarrow> ref \<in> set (unresolvedRefs r (gtsRefs e))"
    unfolding integrityErrors_def using refNotFound_inj by auto
  then show ?thesis by (auto simp: unresolvedRefs_def)
qed

section \<open>The entities a file contributes\<close>

lemma forEachEntity_registerAll:
  "forEachEntity env jf p cfg arr cs idx (r, has) =
     (registerAll p (recognizedEntities env jf cfg arr cs idx) r,
      has \<or> recognizedEntities env jf cfg arr cs idx \<noteq> [])"
proof (induction cs arbitrary: idx r has)
  case Nil
  show ?case by simp
next
  case (Cons c cs)
  show ?case
  proof (cases "createEntity env jf (if arr then Some idx else None) c cfg")
    case None
    then show ?thesis using Cons.IH [of "Suc idx" r has] by simp
  next
    case (Some e)
    show ?thesis
    proof (cases "isGtsEntity e")
      case True
      then show ?thesis using Some Cons.IH [of "Suc idx" "registerEntity p e r" True] by simp
    next
      case False
      then show ?thesis using Some Cons.IH [of "Suc idx" r has] by simp
    qed
  qed
qed

lemma registerAll_untouched [simp]:
  "jsonFiles (registerAll p es r) = jsonFiles r"
  "invalidFiles (registerAll p es r) = invalidFiles r"
  "absentGtsEntities (registerAll p es r) = absentGtsEntities r"
  "fetchCache (registerAll p es r) = fetchCache r"
  "defaultFilePath (registerAll p es r) = defaultFilePath r"
  by (induction es arbitrary: r) simp_all

lemma registerAll_heap [simp]: "heap (registerAll p es r) = heap r @ es"
  by (induction es arbitrary: r) simp_all

lemma registerEntity_fileObjs:
  "mapGet (jsonFileObjs (registerEntity p e r)) q =
     (if q = p \<and> entClass e = JsonObj
      then Some (orEmpty (mapGet (jsonFileObjs r) p) @ [length (heap r)])
      else mapGet (jsonFileObjs r) q)"
  by (simp add: registerEntity_def Let_def mapGet_mapSet) (cases "entClass e"; simp)

lemma registerEntity_fileSchemas:
  "mapGet (jsonFileSchemas (registerEntity p e r)) q =
     (if q = p \<and> entClass e = JsonSchema
      then Some (orEmpty (mapGet (jsonFileSchemas r) p) @ [length (heap r)])
      else mapGet (jsonFileSchemas r) q)"
  by (simp add: registerEntity_def Let_def mapGet_mapSet)

lemma registerEntity_objs:
  "mapGet (jsonObjs (registerEntity p e r)) k =
     (if k = entId e \<and> entClass e = JsonObj then Some (length (heap r))
      else mapGet (jsonObjs r) k)"
  by (simp add: registerEntity_def Let_def mapGet_mapSet) (cases "entClass e"; simp)

lemma registerEntity_schemas:
  "mapGet (jsonSchemas (registerEntity p e r)) k =
     (if k = entId e \<and> entClass e = JsonSchema then Some (length (heap r))
      else mapGet (jsonSchemas r) k)"
  by (simp add: registerEntity_def Let_def mapGet_mapSet)

lemma registerAll_fileObjs_other:
  "q \<noteq> p \<Longrightarrow> mapGet (jsonFileObjs (registerAll p es r)) q = mapGet (jsonFileObjs r) q"
  by (induction es arbitrary: r) (simp_all add: registerEntity_fileObjs)

lemma registerAll_fileSchemas_other:
  "q \<noteq> p \<Longrightarrow> mapGet (jsonFileSchemas (registerAll p es r)) q = mapGet (jsonFileSchemas r) q"
  by (induction es arbitrary: r) (simp_all add: registerEntity_fileSchemas)

lemma registerAll_fileObjs:
  "orEmpty (mapGet (jsonFileObjs (registerAll p es r)) p) =
     orEmpty (mapGet (jsonFileObjs r) p) @ newAddrs JsonObj (length (heap r)) es"
proof (induction es arbitrary: r)
  case Nil
  show ?case by simp
next
  case (Cons e es)
  show ?case
    using Cons.IH [of "registerEntity p e r"]
    by (simp add: registerEntity_fileObjs orEmpty_def)
qed

lemma registerAll_fileSchemas:
  "orEmpty (mapGet (jsonFileSchemas (registerAll p es r)) p) =
     orEmpty (mapGet (jsonFileSchemas r) p) @ newAddrs JsonSchema (length (heap r)) es"
proof (induction es arbitrary: r)
  case Nil
  show ?case by simp
next
  case (Cons e es)
  show ?case
    using Cons.IH [of "registerEntity p e r"]
    by (simp add: registerEntity_fileSchemas orEmpty_def)
qed

lemma registerAll_fileObjs_has:
  "mapHas (jsonFileObjs (registerAll p es r)) p \<longleftrightarrow>
     mapHas (jsonFileObjs r) p \<or> newAddrs JsonObj (length (heap r)) es \<noteq> []"
proof (induction es arbitrary: r)
  case Nil
  show ?case by simp
next
  case (Cons e es)
  have h: "mapHas (jsonFileObjs (registerEntity p e r)) p \<longleftrightarrow>
      mapHas (jsonFileObjs r) p \<or> entClass e = JsonObj"
    using registerEntity_fileObjs [of p e r p] by (auto simp: mapHas_def mapGet_def)
  show ?case
    using Cons.IH [of "registerEntity p e r"] h by auto
qed

lemma registerAll_fileSchemas_has:
  "mapHas (jsonFileSchemas (registerAll p es r)) p \<longleftrightarrow>
     mapHas (jsonFileSchemas r) p \<or> newAddrs JsonSchema (length (heap r)) es \<noteq> []"
proof (induction es arbitrary: r)
  case Nil
  show ?case by simp
next
  case (Cons e es)
  have h: "mapHas (jsonFileSchemas (registerEntity p e r)) p \<longleftrightarrow>
      mapHas (jsonFileSchemas r) p \<or> entClass e = JsonSchema"
    using registerEntity_fileSchemas [of p e r p] by (auto simp: mapHas_def mapGet_def)
  show ?case
    using Cons.IH [of "registerEntity p e r"] h by auto
qed

lemma nth_newAddrs:
  "map (\<lambda>a. (h @ es) ! a) (newAddrs cl (length h) es) = filter (\<lambda>e. entClass e = cl) es"
proof (induction es arbitrary: h)
  case Nil
  show ?case by simp
next
  case (Cons e es)
  have "map (\<lambda>a. ((h @ [e]) @ es) ! a) (newAddrs cl (length (h @ [e])) es)
      = filter (\<lambda>e. entClass e = cl) es"
    by (rule Cons.IH)
  then have rest: "map (\<lambda>a. (h @ e # es) ! a) (newAddrs cl (Suc (length h)) es)
      = filter (\<lambda>e. entClass e = cl) es"
    by simp
  show ?case using rest by simp
qed

lemma newAddrs_bounds: "a \<in> set (newAddrs cl n es) \<Longrightarrow> n \<le> a \<and> a < n + length es"
proof (induction es arbitrary: n)
  case Nil
  then show ?case by simp
next
  case (Cons e es)
  then show ?case by (fastforce split: if_splits)
qed

text \<open>\<^verbatim>\<open>processFileContent\<close> in terms of the entities of the file.\<close>

lemma processFileContent_invalid:
  assumes "hasParseErrors (newJsonFile env p n c)"
  shows "processFileContent env p n c cfg r =
           (invalidateFile p r)\<lparr>invalidFiles :=
              mapSet (invalidFiles (invalidateFile p r)) p (newJsonFile env p n c)\<rparr>"
  using assms by (simp add: processFileContent_def Let_def)

lemma processFileContent_valid:
  assumes "\<not> hasParseErrors (newJsonFile env p n c)"
  shows "processFileContent env p n c cfg r =
     (let jf = newJsonFile env p n c;
          es = recognizedEntities env jf cfg (isArray c) (normalizeToArray c) 0;
          r2 = registerAll p es (invalidateFile p r)
      in if es \<noteq> [] then r2\<lparr>jsonFiles := mapSet (jsonFiles r2) p jf\<rparr> else r2)"
proof -
  have "\<not> mapHas (jsonFiles (invalidateFile p r)) p"
    by (simp add: invalidateFile_jsonFiles mapHas_mapDelete)
  then show ?thesis
    using assms by (simp add: processFileContent_def Let_def forEachEntity_registerAll)
qed

lemma invalidateFile_own_lists:
  "orEmpty (mapGet (jsonFileObjs (invalidateFile p r)) p) = []"
  "orEmpty (mapGet (jsonFileSchemas (invalidateFile p r)) p) = []"
proof -
  show "orEmpty (mapGet (jsonFileObjs (invalidateFile p r)) p) = []"
    by (cases "mapHas (jsonFileObjs r) p")
      (auto simp: invalidateFile_jsonFileObjs map_of_mapSet orEmpty_def mapHas_def mapGet_def)
  show "orEmpty (mapGet (jsonFileSchemas (invalidateFile p r)) p) = []"
    by (cases "mapHas (jsonFileSchemas r) p")
      (auto simp: invalidateFile_jsonFileSchemas map_of_mapSet orEmpty_def mapHas_def mapGet_def)
qed

lemma processFiles_single:
  "\<not> inViewerDir p \<Longrightarrow>
   processFiles env cfg [\<lparr>inPath = p, inName = n, inContent = c\<rparr>] r
     = processFileContent env p n c cfg r"
  by simp

subsection \<open>\<^verbatim>\<open>resolveSchema\<close> and the vendor prefix\<close>

lemma normalizeGtsId_prefixed: "normalizeGtsId (gtsUriPrefix @ i) = i"
  by (simp add: normalizeGtsId_def startsWith_def)

lemma normalizeGtsId_bare: "\<not> startsWith i gtsUriPrefix \<Longrightarrow> normalizeGtsId i = i"
  by (simp add: normalizeGtsId_def)

lemma resolveSchema_prefixed:
  "\<not> startsWith i gtsUriPrefix \<Longrightarrow> resolveSchema r (gtsUriPrefix @ i) = resolveSchema r i"
  by (simp add: resolveSchema_def normalizeGtsId_prefixed normalizeGtsId_bare)

subsection \<open>Source paths by segments\<close>

lemma dotsToSlashes_append: "dotsToSlashes (a @ b) = dotsToSlashes a @ dotsToSlashes b"
  by (simp add: dotsToSlashes_def)

lemma dotsToSlashes_plain: "CHR ''.'' \<notin> set f \<Longrightarrow> dotsToSlashes f = f"
  unfolding dotsToSlashes_def by (induction f) auto

lemma digits_no_dot:
  assumes "\<forall>c \<in> set ds. isDigit c"
  shows "CHR ''.'' \<notin> set ds"
proof
  assume "CHR ''.'' \<in> set ds"
  then have "isDigit CHR ''.''" using assms by blast
  then show False by (simp add: isDigit_def)
qed

lemma indicesToSlashes_plain:
  "CHR ''['' \<notin> set f \<Longrightarrow> indicesToSlashes (f @ rest) = f @ indicesToSlashes rest"
  by (induction f) auto

lemma indicesToSlashes_index:
  assumes "ds \<noteq> []" and "\<forall>c \<in> set ds. isDigit c"
  shows "indicesToSlashes (CHR ''['' # ds @ CHR '']'' # rest) = CHR ''/'' # ds @ indicesToSlashes rest"
proof -
  have tw: "takeWhile isDigit (ds @ CHR '']'' # rest) = ds"
    and dw: "dropWhile isDigit (ds @ CHR '']'' # rest) = CHR '']'' # rest"
    using takeWhile_digits [OF assms(2)] by blast+
  show ?thesis using assms(1) by (simp add: tw dw startsWith_def)
qed

lemma convert_segments:
  assumes "\<forall>s \<in> set segs. plainSegment s"
  shows "indicesToSlashes (dotsToSlashes (concat (map renderSegment segs)))
           = concat (map slashSegment segs)"
  using assms
proof (induction segs)
  case Nil
  show ?case by (simp add: dotsToSlashes_def)
next
  case (Cons s segs)
  let ?rest = "dotsToSlashes (concat (map renderSegment segs))"
  have ih: "indicesToSlashes ?rest = concat (map slashSegment segs)"
    using Cons by simp
  show ?case
  proof (cases s)
    case (Field f)
    then have pf: "CHR ''.'' \<notin> set f" "CHR ''['' \<notin> set f"
      using Cons.prems by (simp_all add: plainSegment_def plainName_def)
    have r: "concat (map renderSegment (s # segs))
        = (CHR ''.'' # f) @ concat (map renderSegment segs)"
      using Field by (simp add: renderSegment_def)
    have "dotsToSlashes (CHR ''.'' # f) = CHR ''/'' # dotsToSlashes f"
      by (simp add: dotsToSlashes_def)
    then have h: "dotsToSlashes (CHR ''.'' # f) = CHR ''/'' # f"
      using dotsToSlashes_plain [OF pf(1)] by simp
    have "dotsToSlashes (concat (map renderSegment (s # segs))) = (CHR ''/'' # f) @ ?rest"
      unfolding r dotsToSlashes_append h ..
    moreover have "indicesToSlashes ((CHR ''/'' # f) @ ?rest) = (CHR ''/'' # f) @ indicesToSlashes ?rest"
      using pf(2) by (intro indicesToSlashes_plain) simp
    moreover have "slashSegment s = CHR ''/'' # f" using Field by (simp add: slashSegment_def)
    ultimately show ?thesis using ih by simp
  next
    case (Index ds)
    then have d: "ds \<noteq> []" "\<forall>c \<in> set ds. isDigit c"
      using Cons.prems by (simp_all add: plainSegment_def)
    have nd: "CHR ''.'' \<notin> set ds" using d(2) by (rule digits_no_dot)
    have r: "concat (map renderSegment (s # segs))
        = (CHR ''['' # ds @ '']'') @ concat (map renderSegment segs)"
      using Index by (simp add: renderSegment_def)
    have "CHR ''.'' \<notin> set (CHR ''['' # ds @ '']'')" using nd by simp
    then have h: "dotsToSlashes (CHR ''['' # ds @ '']'') = CHR ''['' # ds @ '']''"
      by (rule dotsToSlashes_plain)
    have "dotsToSlashes (concat (map renderSegment (s # segs)))
        = (CHR ''['' # ds @ '']'') @ ?rest"
      unfolding r dotsToSlashes_append h ..
    then have "dotsToSlashes (concat (map renderSegment (s # segs))) = CHR ''['' # ds @ CHR '']'' # ?rest"
      by simp
    moreover have "indicesToSlashes (CHR ''['' # ds @ CHR '']'' # ?rest)
        = CHR ''/'' # ds @ indicesToSlashes ?rest"
      using d by (rule indicesToSlashes_index)
    moreover have "slashSegment s = CHR ''/'' # ds" using Index by (simp add: slashSegment_def)
    ultimately show ?thesis using ih by simp
  qed
qed

lemma toInstancePath_segments:
  assumes "plainName f0" and "\<forall>s \<in> set segs. plainSegment s" and "dotPath f0 segs \<noteq> ''root''"
  shows "toInstancePath (dotPath f0 segs) = slashPath f0 segs"
proof -
  have p: "CHR ''.'' \<notin> set f0" "CHR ''['' \<notin> set f0" using assms(1) by (simp_all add: plainName_def)
  have "indicesToSlashes (dotsToSlashes (dotPath f0 segs))
      = indicesToSlashes (f0 @ dotsToSlashes (concat (map renderSegment segs)))"
    using p(1) by (simp add: dotPath_def dotsToSlashes_append dotsToSlashes_plain)
  also have "\<dots> = f0 @ indicesToSlashes (dotsToSlashes (concat (map renderSegment segs)))"
    using p(2) by (rule indicesToSlashes_plain)
  also have "\<dots> = f0 @ concat (map slashSegment segs)"
    using assms(2) by (simp add: convert_segments)
  finally show ?thesis using assms(3) by (simp add: toInstancePath_def slashPath_def)
qed

section \<open>What a validation pass computes\<close>

lemma update_validation_strip:
  "stripValidation e' = stripValidation e \<Longrightarrow> e'\<lparr>validation := v\<rparr> = e\<lparr>validation := v\<rparr>"
proof -
  assume eq: "stripValidation e' = stripValidation e"
  have "e'\<lparr>validation := v\<rparr> = (stripValidation e')\<lparr>validation := v\<rparr>"
    by (simp add: stripValidation_def)
  also have "\<dots> = (stripValidation e)\<lparr>validation := v\<rparr>" using eq by simp
  also have "\<dots> = e\<lparr>validation := v\<rparr>" by (simp add: stripValidation_def)
  finally show ?thesis .
qed

lemma stripValidation_validatedEntity [simp]:
  "stripValidation (validatedEntity env r e) = stripValidation e"
  by (simp add: validatedEntity_def)

lemma integrityErrors_cong:
  assumes "\<And>i. refExists r' i = refExists r i" and "gtsRefs e' = gtsRefs e"
  shows "integrityErrors r' e' = integrityErrors r e"
  using assms by (simp add: integrityErrors_def unresolvedRefs_def)

lemma loadSchema_contents:
  "loadSchema env r uri =
     (if startsWith (decodeGtsId env uri) ''https://json-schema.org''
         \<or> startsWith (decodeGtsId env uri) ''http://json-schema.org''
      then LoadTrue
      else (case schemaContents r (decodeGtsId env uri) of
              None \<Rightarrow> LoadThrew (''Schema not found for $ref: '' @ decodeGtsId env uri)
            | Some c \<Rightarrow> LoadContent c))"
  by (simp add: loadSchema_def schemaContents_def Let_def split: option.splits)

lemma loadSchema_cong:
  assumes "\<And>s. schemaContents r' s = schemaContents r s"
  shows "loadSchema env r' = loadSchema env r"
  by (rule ext) (simp add: loadSchema_contents assms)

lemma objectErrors_cong:
  assumes sc: "\<And>s. schemaContents r' s = schemaContents r s"
    and st: "stripValidation e' = stripValidation e"
  shows "objectErrors env r' e' = objectErrors env r e"
proof -
  note f = stripValidation_eqD [OF st]
  have ld: "loadSchema env r' = loadSchema env r" using sc by (rule loadSchema_cong)
  show ?thesis
  proof (cases "truthy (schemaId e)")
    case False
    then show ?thesis using f by (simp add: objectErrors_def)
  next
    case True
    let ?sid = "orEmpty (schemaId e)"
    have c: "schemaContents r' ?sid = schemaContents r ?sid" by (rule sc)
    show ?thesis
    proof (cases "resolveSchema r ?sid")
      case None
      then have "resolveSchema r' ?sid = None" using c by (simp add: schemaContents_def)
      then show ?thesis using None True f by (simp add: objectErrors_def Let_def)
    next
      case (Some s)
      then obtain s' where s': "resolveSchema r' ?sid = Some s'" and cs: "content s' = content s"
        using c by (auto simp: schemaContents_def)
      show ?thesis using Some s' cs True f ld
        by (simp add: objectErrors_def Let_def
            cong: compileOutcome.case_cong validateOutcome.case_cong)
    qed
  qed
qed

lemma phaseB_cong:
  assumes sc: "\<And>s. schemaContents r' s = schemaContents r s"
    and st: "stripValidation e' = stripValidation e"
  shows "phaseB env r' e' = phaseB env r e"
proof -
  note f = stripValidation_eqD [OF st]
  have ld: "loadSchema env r' = loadSchema env r" using sc by (rule loadSchema_cong)
  have ob: "objectErrors env r' e' = objectErrors env r e" using sc st by (rule objectErrors_cong)
  show ?thesis using f ld ob
    by (simp add: phaseB_def cong: entityClass.case_cong compileOutcome.case_cong)
qed

lemma validatedEntity_cong:
  assumes "\<And>i. refExists r' i = refExists r i"
    and "\<And>s. schemaContents r' s = schemaContents r s"
    and "stripValidation e' = stripValidation e"
  shows "validatedEntity env r' e' = validatedEntity env r e"
proof -
  have g: "gtsRefs e' = gtsRefs e" using stripValidation_eqD(4) [OF assms(3)] .
  have i: "integrityErrors r' e' = integrityErrors r e"
    using assms(1) g by (rule integrityErrors_cong)
  have b: "phaseB env r' e' = phaseB env r e" using assms(2,3) by (rule phaseB_cong)
  show ?thesis
    unfolding validatedEntity_def i b by (rule update_validation_strip [OF assms(3)])
qed

lemma sameStatics_refl [simp]: "sameStatics r r"
  by (simp add: sameStatics_def)

lemma sameStatics_length: "sameStatics r r' \<Longrightarrow> length (heap r') = length (heap r)"
  unfolding sameStatics_def by (metis length_map)

lemma sameStatics_nth:
  assumes "sameStatics r r'" and "a < length (heap r)"
  shows "stripValidation (heap r' ! a) = stripValidation (heap r ! a)"
proof -
  have l: "a < length (heap r')" using assms sameStatics_length by simp
  have "map stripValidation (heap r') ! a = map stripValidation (heap r) ! a"
    using assms(1) by (simp add: sameStatics_def)
  then show ?thesis using l assms(2) by simp
qed

lemma sameStatics_refExists: "sameStatics r r' \<Longrightarrow> refExists r' i = refExists r i"
  by (simp add: sameStatics_def refExists_def)

lemma sameStatics_schemaContents:
  assumes "sameStatics r r'"
  shows "schemaContents r' s = schemaContents r s"
proof (cases "mapGet (jsonSchemas r) (normalizeGtsId s)")
  case None
  then show ?thesis using assms by (simp add: schemaContents_def resolveSchema_def sameStatics_def)
next
  case (Some a)
  have js: "jsonSchemas r' = jsonSchemas r" using assms by (simp add: sameStatics_def)
  show ?thesis
  proof (cases "a < length (heap r)")
    case True
    have "content (stripValidation (heap r' ! a)) = content (stripValidation (heap r ! a))"
      using sameStatics_nth [OF assms True] by simp
    then show ?thesis
      using Some True js sameStatics_length [OF assms]
      by (simp add: schemaContents_def resolveSchema_def deref_def)
  next
    case False
    then show ?thesis
      using Some js sameStatics_length [OF assms]
      by (simp add: schemaContents_def resolveSchema_def deref_def)
  qed
qed

lemma sameStatics_validatedEntity:
  assumes "sameStatics r r'" and "stripValidation e' = stripValidation e"
  shows "validatedEntity env r' e' = validatedEntity env r e"
  using sameStatics_refExists [OF assms(1)] sameStatics_schemaContents [OF assms(1)] assms(2)
  by (rule validatedEntity_cong)

lemma sameStatics_validateEntity: "sameStatics r (validateEntity env x r)"
  by (simp add: sameStatics_def validateEntity_strip)

lemma validateEntity_nth:
  assumes "a < length (heap r)"
  shows "heap (validateEntity env x r) ! a =
           (if a = x then validatedEntity env r (heap r ! a) else heap r ! a)"
proof (cases "deref (heap r) x")
  case None
  then have "\<not> x < length (heap r)" by (simp add: deref_def split: if_splits)
  then show ?thesis using None assms by (auto simp: validateEntity_dangling)
next
  case (Some e)
  then have e: "e = heap r ! x" and x: "x < length (heap r)"
    by (auto simp: deref_def split: if_splits)
  show ?thesis
    unfolding validateEntity_heap [OF Some] using assms e
    by (simp add: validatedEntity_def nth_list_update)
qed

lemma validateLoop_nth:
  assumes "a < length (heap r)"
  shows "heap (fst (validateLoop env tag as (r, tr))) ! a =
           (if a \<in> set as then validatedEntity env r (heap r ! a) else heap r ! a)"
  using assms
proof (induction as arbitrary: r tr)
  case Nil
  show ?case by simp
next
  case (Cons x xs)
  let ?r1 = "validateEntity env x r"
  have ss: "sameStatics r ?r1" by (rule sameStatics_validateEntity)
  have l1: "a < length (heap ?r1)" using Cons.prems by simp
  have st: "stripValidation (heap ?r1 ! a) = stripValidation (heap r ! a)"
    using sameStatics_nth [OF ss Cons.prems] .
  have v: "validatedEntity env ?r1 (heap ?r1 ! a) = validatedEntity env r (heap r ! a)"
    using ss st by (rule sameStatics_validatedEntity)
  have "heap (fst (validateLoop env tag (x # xs) (r, tr))) ! a
      = heap (fst (validateLoop env tag xs (?r1, tr @ [tag x]))) ! a"
    by simp
  also have "\<dots> = (if a \<in> set xs then validatedEntity env ?r1 (heap ?r1 ! a) else heap ?r1 ! a)"
    using Cons.IH [OF l1] .
  also have "\<dots> = (if a \<in> set (x # xs) then validatedEntity env r (heap r ! a) else heap r ! a)"
    using v validateEntity_nth [OF Cons.prems, of env x] by auto
  finally show ?case .
qed

lemma sameStatics_validateLoop: "sameStatics r (fst (validateLoop env tag as (r, tr)))"
  using validateLoop_maps [of env tag as r tr] validateLoop_strip [of env tag as r tr]
  by (simp add: sameStatics_def)

lemma validateEntities_nth:
  assumes "a < length (heap r)"
  shows "heap (validateEntities env r) ! a =
           (if a \<in> mainAddrs r then validatedEntity env r (heap r ! a) else heap r ! a)"
proof -
  obtain r1 tr1 where s: "validateLoop env SchemaValidated (mapValues (jsonSchemas r)) (r, []) = (r1, tr1)"
    by (cases "validateLoop env SchemaValidated (mapValues (jsonSchemas r)) (r, [])")
  have ss: "sameStatics r r1"
    using sameStatics_validateLoop [of r env SchemaValidated "mapValues (jsonSchemas r)" "[]"] s
    by simp
  have l1: "a < length (heap r1)" using assms sameStatics_length [OF ss] by simp
  have h1: "heap r1 ! a =
      (if a \<in> set (mapValues (jsonSchemas r)) then validatedEntity env r (heap r ! a) else heap r ! a)"
    using validateLoop_nth [OF assms, of env SchemaValidated "mapValues (jsonSchemas r)" "[]"] s
    by simp
  have st: "stripValidation (heap r1 ! a) = stripValidation (heap r ! a)"
    using sameStatics_nth [OF ss assms] .
  have v: "validatedEntity env r1 (heap r1 ! a) = validatedEntity env r (heap r ! a)"
    using ss st by (rule sameStatics_validatedEntity)
  have "heap (validateEntities env r) ! a
      = heap (fst (validateLoop env ObjValidated (mapValues (jsonObjs r)) (r1, tr1))) ! a"
    unfolding validateEntities_eq s ..
  also have "\<dots> = (if a \<in> set (mapValues (jsonObjs r)) then validatedEntity env r1 (heap r1 ! a)
      else heap r1 ! a)"
    using validateLoop_nth [OF l1] .
  also have "\<dots> = (if a \<in> mainAddrs r then validatedEntity env r (heap r ! a) else heap r ! a)"
    using v h1 by (auto simp: mainAddrs_def)
  finally show ?thesis .
qed

subsection \<open>The placeholders a pass files\<close>

lemma sameStatics_missingIn:
  assumes "sameStatics r r'"
  shows "missingIn r' as = missingIn r as"
proof -
  have len: "length (heap r') = length (heap r)" using assms by (rule sameStatics_length)
  have un: "\<And>a. a < length (heap r) \<Longrightarrow>
      unresolvedRefs r' (gtsRefs (heap r' ! a)) = unresolvedRefs r (gtsRefs (heap r ! a))"
  proof -
    fix a assume a: "a < length (heap r)"
    have "gtsRefs (stripValidation (heap r' ! a)) = gtsRefs (stripValidation (heap r ! a))"
      using sameStatics_nth [OF assms a] by simp
    then have "gtsRefs (heap r' ! a) = gtsRefs (heap r ! a)" by simp
    then show "unresolvedRefs r' (gtsRefs (heap r' ! a)) = unresolvedRefs r (gtsRefs (heap r ! a))"
      using sameStatics_refExists [OF assms] by (simp add: unresolvedRefs_def)
  qed
  show ?thesis unfolding missingIn_def len using un by auto
qed

lemma validateEntity_absent_map:
  "map_of (absentGtsEntities (validateEntity env x r)) i =
     (if i \<in> missingIn r {x} then Some (createAbsentEntity env i)
      else map_of (absentGtsEntities r) i)"
proof (cases "deref (heap r) x")
  case None
  then have "\<not> x < length (heap r)" by (simp add: deref_def split: if_splits)
  then show ?thesis using None by (simp add: validateEntity_dangling missingIn_def)
next
  case (Some e)
  then have e: "e = heap r ! x" and x: "x < length (heap r)"
    by (auto simp: deref_def split: if_splits)
  have m: "missingIn r {x} = refId ` set (unresolvedRefs r (gtsRefs e))"
    using x e by (auto simp: missingIn_def)
  show ?thesis
    unfolding validateEntity_absent [OF Some] m by (rule checkGtsRefs_absent)
qed

lemma missingIn_insert: "missingIn r (insert x as) = missingIn r {x} \<union> missingIn r as"
  by (auto simp: missingIn_def)

lemma validateLoop_absent:
  "map_of (absentGtsEntities (fst (validateLoop env tag as (r, tr)))) i =
     (if i \<in> missingIn r (set as) then Some (createAbsentEntity env i)
      else map_of (absentGtsEntities r) i)"
proof (induction as arbitrary: r tr)
  case Nil
  show ?case by (simp add: missingIn_def)
next
  case (Cons x xs)
  let ?r1 = "validateEntity env x r"
  have ss: "sameStatics r ?r1" by (rule sameStatics_validateEntity)
  have m: "missingIn ?r1 (set xs) = missingIn r (set xs)" using ss by (rule sameStatics_missingIn)
  have "map_of (absentGtsEntities (fst (validateLoop env tag (x # xs) (r, tr)))) i
      = map_of (absentGtsEntities (fst (validateLoop env tag xs (?r1, tr @ [tag x])))) i"
    by simp
  also have "\<dots> = (if i \<in> missingIn ?r1 (set xs) then Some (createAbsentEntity env i)
      else map_of (absentGtsEntities ?r1) i)"
    by (rule Cons.IH)
  also have "\<dots> = (if i \<in> missingIn r (set (x # xs)) then Some (createAbsentEntity env i)
      else map_of (absentGtsEntities r) i)"
    unfolding m validateEntity_absent_map
    using missingIn_insert [of r x "set xs"] by auto
  finally show ?case .
qed

lemma validateEntities_absent:
  "map_of (absentGtsEntities (validateEntities env r)) i =
     (if i \<in> missingIn r (mainAddrs r) then Some (createAbsentEntity env i)
      else map_of (absentGtsEntities r) i)"
proof -
  obtain r1 tr1 where s: "validateLoop env SchemaValidated (mapValues (jsonSchemas r)) (r, []) = (r1, tr1)"
    by (cases "validateLoop env SchemaValidated (mapValues (jsonSchemas r)) (r, [])")
  have ss: "sameStatics r r1"
    using sameStatics_validateLoop [of r env SchemaValidated "mapValues (jsonSchemas r)" "[]"] s
    by simp
  have a1: "map_of (absentGtsEntities r1) i =
      (if i \<in> missingIn r (set (mapValues (jsonSchemas r))) then Some (createAbsentEntity env i)
       else map_of (absentGtsEntities r) i)"
    using validateLoop_absent [of env SchemaValidated "mapValues (jsonSchemas r)" r "[]" i] s
    by simp
  have m: "missingIn r1 (set (mapValues (jsonObjs r))) = missingIn r (set (mapValues (jsonObjs r)))"
    using ss by (rule sameStatics_missingIn)
  have u: "missingIn r (mainAddrs r) =
      missingIn r (set (mapValues (jsonSchemas r))) \<union> missingIn r (set (mapValues (jsonObjs r)))"
    by (auto simp: missingIn_def mainAddrs_def)
  have "map_of (absentGtsEntities (validateEntities env r)) i
      = map_of (absentGtsEntities (fst (validateLoop env ObjValidated (mapValues (jsonObjs r)) (r1, tr1)))) i"
    unfolding validateEntities_eq s ..
  also have "\<dots> = (if i \<in> missingIn r1 (set (mapValues (jsonObjs r)))
      then Some (createAbsentEntity env i) else map_of (absentGtsEntities r1) i)"
    by (rule validateLoop_absent)
  also have "\<dots> = (if i \<in> missingIn r (mainAddrs r) then Some (createAbsentEntity env i)
      else map_of (absentGtsEntities r) i)"
    unfolding m a1 u by auto
  finally show ?thesis .
qed

section \<open>The index state and registries that differ by a renaming of addresses\<close>

lemma mapValues_ran:
  assumes "distinct (map fst m)"
  shows "set (mapValues m) = {a. \<exists>k. mapGet m k = Some a}"
proof -
  have "\<And>a. a \<in> set (mapValues m) \<longleftrightarrow> (\<exists>k. (k, a) \<in> set m)"
    by (force simp: mapValues_def)
  then show ?thesis using assms by (auto simp: mapGet_def)
qed

lemma mainAddrs_ran:
  assumes "distinctKeys r"
  shows "mainAddrs r =
     {a. \<exists>k. mapGet (jsonSchemas r) k = Some a} \<union> {a. \<exists>k. mapGet (jsonObjs r) k = Some a}"
  using assms by (simp add: mainAddrs_def distinctKeys_def mapValues_ran)

lemma mainAddrs_reach: "distinctKeys r \<Longrightarrow> mainAddrs r \<subseteq> reach r"
  by (auto simp: mainAddrs_ran reach_def)

lemma related_mainAddrs:
  assumes rel: "related f r1 r2" and d1: "distinctKeys r1" and d2: "distinctKeys r2"
  shows "mainAddrs r2 = f ` mainAddrs r1"
proof -
  have o: "\<And>k. mapGet (jsonObjs r2) k = map_option f (mapGet (jsonObjs r1) k)"
    and s: "\<And>k. mapGet (jsonSchemas r2) k = map_option f (mapGet (jsonSchemas r1) k)"
    using rel by (simp_all add: related_def)
  show ?thesis
    unfolding mainAddrs_ran [OF d1] mainAddrs_ran [OF d2] o s
    by (auto simp: image_iff)
qed

lemma related_refExists:
  assumes "related f r1 r2"
  shows "refExists r2 i = refExists r1 i"
proof -
  have "mapGet (jsonObjs r2) i = map_option f (mapGet (jsonObjs r1) i)"
    and "mapGet (jsonSchemas r2) i = map_option f (mapGet (jsonSchemas r1) i)"
    using assms by (simp_all add: related_def)
  then show ?thesis by (simp add: refExists_def mapHas_def mapGet_def)
qed

lemma related_reachD:
  assumes "related f r1 r2" and "a \<in> reach r1"
  shows "a < length (heap r1)" "f a < length (heap r2)"
    "stripValidation (heap r2 ! f a) = stripValidation (heap r1 ! a)"
    "a \<notin> mainAddrs r1 \<Longrightarrow> heap r2 ! f a = heap r1 ! a"
  using assms by (simp_all add: related_def)

lemma related_schemaContents:
  assumes rel: "related f r1 r2"
  shows "schemaContents r2 s = schemaContents r1 s"
proof (cases "mapGet (jsonSchemas r1) (normalizeGtsId s)")
  case None
  moreover have "mapGet (jsonSchemas r2) (normalizeGtsId s)
      = map_option f (mapGet (jsonSchemas r1) (normalizeGtsId s))"
    using rel by (simp add: related_def)
  ultimately show ?thesis by (simp add: schemaContents_def resolveSchema_def)
next
  case (Some a)
  have m2: "mapGet (jsonSchemas r2) (normalizeGtsId s) = Some (f a)"
    using rel Some by (simp add: related_def)
  have a: "a \<in> reach r1" using Some by (auto simp: reach_def)
  note d = related_reachD [OF rel a]
  have "content (stripValidation (heap r2 ! f a)) = content (stripValidation (heap r1 ! a))"
    using d(3) by simp
  then show ?thesis
    using Some m2 d(1,2) by (simp add: schemaContents_def resolveSchema_def deref_def)
qed

lemma related_validated_nth:
  assumes rel: "related f r1 r2" and d1: "distinctKeys r1" and d2: "distinctKeys r2"
    and a: "a \<in> reach r1"
  shows "heap (validateEntities env r2) ! f a = heap (validateEntities env r1) ! a"
proof -
  note d = related_reachD [OF rel a]
  have inj: "inj_on f (reach r1)" using rel by (simp add: related_def)
  have m: "mainAddrs r2 = f ` mainAddrs r1" using rel d1 d2 by (rule related_mainAddrs)
  have iff: "f a \<in> mainAddrs r2 \<longleftrightarrow> a \<in> mainAddrs r1"
  proof
    assume "f a \<in> mainAddrs r2"
    then obtain b where b: "b \<in> mainAddrs r1" and fb: "f a = f b" using m by auto
    have "b \<in> reach r1" using b mainAddrs_reach [OF d1] by auto
    then have "a = b" using inj a fb by (auto dest: inj_onD)
    then show "a \<in> mainAddrs r1" using b by simp
  next
    assume "a \<in> mainAddrs r1"
    then show "f a \<in> mainAddrs r2" using m by simp
  qed
  have v: "validatedEntity env r2 (heap r2 ! f a) = validatedEntity env r1 (heap r1 ! a)"
    using related_refExists [OF rel] related_schemaContents [OF rel] d(3)
    by (rule validatedEntity_cong)
  show ?thesis
    unfolding validateEntities_nth [OF d(1)] validateEntities_nth [OF d(2)] iff
    using v d(4) by simp
qed

lemma related_missingIn:
  assumes rel: "related f r1 r2" and d1: "distinctKeys r1" and d2: "distinctKeys r2"
  shows "missingIn r2 (mainAddrs r2) = missingIn r1 (mainAddrs r1)"
proof -
  have m: "mainAddrs r2 = f ` mainAddrs r1" using rel d1 d2 by (rule related_mainAddrs)
  have un: "\<And>a. a \<in> mainAddrs r1 \<Longrightarrow>
      a < length (heap r1) \<and> f a < length (heap r2)
      \<and> unresolvedRefs r2 (gtsRefs (heap r2 ! f a)) = unresolvedRefs r1 (gtsRefs (heap r1 ! a))"
  proof -
    fix a assume "a \<in> mainAddrs r1"
    then have a: "a \<in> reach r1" using mainAddrs_reach [OF d1] by auto
    note d = related_reachD [OF rel a]
    have "gtsRefs (stripValidation (heap r2 ! f a)) = gtsRefs (stripValidation (heap r1 ! a))"
      using d(3) by simp
    then have "gtsRefs (heap r2 ! f a) = gtsRefs (heap r1 ! a)" by simp
    then have "unresolvedRefs r2 (gtsRefs (heap r2 ! f a)) = unresolvedRefs r1 (gtsRefs (heap r1 ! a))"
      using related_refExists [OF rel] by (simp add: unresolvedRefs_def)
    then show "a < length (heap r1) \<and> f a < length (heap r2)
      \<and> unresolvedRefs r2 (gtsRefs (heap r2 ! f a)) = unresolvedRefs r1 (gtsRefs (heap r1 ! a))"
      using d(1,2) by simp
  qed
  have "missingIn r2 (f ` mainAddrs r1)
      = (\<Union>a \<in> mainAddrs r1. refId ` set (unresolvedRefs r2 (gtsRefs (heap r2 ! f a))))"
    using un by (auto simp: missingIn_def)
  also have "\<dots> = (\<Union>a \<in> mainAddrs r1. refId ` set (unresolvedRefs r1 (gtsRefs (heap r1 ! a))))"
    using un by auto
  also have "\<dots> = missingIn r1 (mainAddrs r1)"
    using un by (auto simp: missingIn_def)
  finally show ?thesis unfolding m .
qed

lemma related_indexState:
  assumes rel: "related f r1 r2" and d1: "distinctKeys r1" and d2: "distinctKeys r2"
  shows "indexState (validateEntities env r2) = indexState (validateEntities env r1)"
proof -
  let ?v1 = "validateEntities env r1" and ?v2 = "validateEntities env r2"
  note m1 = validateEntities_maps [of env r1] and m2 = validateEntities_maps [of env r2]
  have nth: "\<And>a. a \<in> reach r1 \<Longrightarrow> heap ?v2 ! f a = heap ?v1 ! a"
    using rel d1 d2 by (rule related_validated_nth)
  have objs: "\<And>k. map_option (\<lambda>a. heap ?v2 ! a) (mapGet (jsonObjs r2) k)
      = map_option (\<lambda>a. heap ?v1 ! a) (mapGet (jsonObjs r1) k)"
  proof -
    fix k
    have e: "mapGet (jsonObjs r2) k = map_option f (mapGet (jsonObjs r1) k)"
      using rel by (simp add: related_def)
    show "map_option (\<lambda>a. heap ?v2 ! a) (mapGet (jsonObjs r2) k)
      = map_option (\<lambda>a. heap ?v1 ! a) (mapGet (jsonObjs r1) k)"
    proof (cases "mapGet (jsonObjs r1) k")
      case None
      then show ?thesis using e by simp
    next
      case (Some a)
      then have "a \<in> reach r1" by (auto simp: reach_def)
      then show ?thesis using e Some nth by simp
    qed
  qed
  have schemas: "\<And>k. map_option (\<lambda>a. heap ?v2 ! a) (mapGet (jsonSchemas r2) k)
      = map_option (\<lambda>a. heap ?v1 ! a) (mapGet (jsonSchemas r1) k)"
  proof -
    fix k
    have e: "mapGet (jsonSchemas r2) k = map_option f (mapGet (jsonSchemas r1) k)"
      using rel by (simp add: related_def)
    show "map_option (\<lambda>a. heap ?v2 ! a) (mapGet (jsonSchemas r2) k)
      = map_option (\<lambda>a. heap ?v1 ! a) (mapGet (jsonSchemas r1) k)"
    proof (cases "mapGet (jsonSchemas r1) k")
      case None
      then show ?thesis using e by simp
    next
      case (Some a)
      then have "a \<in> reach r1" by (auto simp: reach_def)
      then show ?thesis using e Some nth by simp
    qed
  qed
  have fobjs: "\<And>k. map_option (map (\<lambda>a. heap ?v2 ! a)) (mapGet (jsonFileObjs r2) k)
      = map_option (map (\<lambda>a. heap ?v1 ! a)) (mapGet (jsonFileObjs r1) k)"
  proof -
    fix k
    have e: "mapGet (jsonFileObjs r2) k = map_option (map f) (mapGet (jsonFileObjs r1) k)"
      using rel by (simp add: related_def)
    show "map_option (map (\<lambda>a. heap ?v2 ! a)) (mapGet (jsonFileObjs r2) k)
      = map_option (map (\<lambda>a. heap ?v1 ! a)) (mapGet (jsonFileObjs r1) k)"
    proof (cases "mapGet (jsonFileObjs r1) k")
      case None
      then show ?thesis using e by simp
    next
      case (Some l)
      then have "\<And>a. a \<in> set l \<Longrightarrow> a \<in> reach r1" by (auto simp: reach_def)
      then show ?thesis using e Some nth by simp
    qed
  qed
  have fschemas: "\<And>k. map_option (map (\<lambda>a. heap ?v2 ! a)) (mapGet (jsonFileSchemas r2) k)
      = map_option (map (\<lambda>a. heap ?v1 ! a)) (mapGet (jsonFileSchemas r1) k)"
  proof -
    fix k
    have e: "mapGet (jsonFileSchemas r2) k = map_option (map f) (mapGet (jsonFileSchemas r1) k)"
      using rel by (simp add: related_def)
    show "map_option (map (\<lambda>a. heap ?v2 ! a)) (mapGet (jsonFileSchemas r2) k)
      = map_option (map (\<lambda>a. heap ?v1 ! a)) (mapGet (jsonFileSchemas r1) k)"
    proof (cases "mapGet (jsonFileSchemas r1) k")
      case None
      then show ?thesis using e by simp
    next
      case (Some l)
      then have "\<And>a. a \<in> set l \<Longrightarrow> a \<in> reach r1" by (auto simp: reach_def)
      then show ?thesis using e Some nth by simp
    qed
  qed
  have files: "\<And>k. mapGet (jsonFiles r2) k = mapGet (jsonFiles r1) k"
    and invalid: "\<And>k. mapGet (invalidFiles r2) k = mapGet (invalidFiles r1) k"
    and dflt: "defaultFilePath r2 = defaultFilePath r1"
    using rel by (simp_all add: related_def)
  have miss: "missingIn r2 (mainAddrs r2) = missingIn r1 (mainAddrs r1)"
    using rel d1 d2 by (rule related_missingIn)
  have ab: "\<And>i. i \<notin> missingIn r1 (mainAddrs r1) \<Longrightarrow>
      mapGet (absentGtsEntities r2) i = mapGet (absentGtsEntities r1) i"
    using rel by (simp add: related_def)
  have absent: "\<And>i. mapGet (absentGtsEntities ?v2) i = mapGet (absentGtsEntities ?v1) i"
    unfolding mapGet_def validateEntities_absent miss
    using ab by (simp add: mapGet_def)
  show ?thesis
    unfolding indexState_def
    using m1 m2 objs schemas fobjs fschemas files invalid dflt absent
    by (simp add: fun_eq_iff)
qed

section \<open>\<^verbatim>\<open>processFileContent\<close> as a function of the maps\<close>

lemma idsOf_Nil [simp]: "idsOf cl [] = {}"
  by (simp add: idsOf_def)

lemma idsOf_Cons:
  "idsOf cl (e # es) = (if entClass e = cl then {entId e} else {}) \<union> idsOf cl es"
  by (auto simp: idsOf_def)

lemma regLookup_None: "regLookup cl n es k = None \<longleftrightarrow> k \<notin> idsOf cl es"
proof (induction es arbitrary: n)
  case Nil
  show ?case by simp
next
  case (Cons e es)
  show ?case
  proof (cases "regLookup cl (Suc n) es k")
    case None
    then have "k \<notin> idsOf cl es" using Cons.IH by simp
    then show ?thesis using None by (auto simp: idsOf_Cons)
  next
    case (Some a)
    then have "k \<in> idsOf cl es" using Cons.IH [of "Suc n"] by auto
    then show ?thesis using Some by (simp add: idsOf_Cons)
  qed
qed

lemma regLookup_shift: "regLookup cl (n + d) es k = map_option (\<lambda>a. a + d) (regLookup cl n es k)"
proof (induction es arbitrary: n)
  case Nil
  show ?case by simp
next
  case (Cons e es)
  have "regLookup cl (Suc (n + d)) es k = map_option (\<lambda>a. a + d) (regLookup cl (Suc n) es k)"
    using Cons.IH [of "Suc n"] by simp
  then show ?case by (simp split: option.splits)
qed

lemma regLookup_bounds: "regLookup cl n es k = Some a \<Longrightarrow> n \<le> a \<and> a < n + length es"
proof (induction es arbitrary: n)
  case Nil
  then show ?case by simp
next
  case (Cons e es)
  show ?case
  proof (cases "regLookup cl (Suc n) es k")
    case None
    then show ?thesis using Cons.prems by (simp split: if_splits)
  next
    case (Some b)
    then have "regLookup cl (Suc n) es k = Some a" using Cons.prems by simp
    then have "Suc n \<le> a \<and> a < Suc n + length es" by (rule Cons.IH)
    then show ?thesis by simp
  qed
qed

lemma newAddrs_shift: "newAddrs cl (n + d) es = map (\<lambda>a. a + d) (newAddrs cl n es)"
proof (induction es arbitrary: n)
  case Nil
  show ?case by simp
next
  case (Cons e es)
  have "newAddrs cl (Suc (n + d)) es = map (\<lambda>a. a + d) (newAddrs cl (Suc n) es)"
    using Cons.IH [of "Suc n"] by simp
  then show ?case by simp
qed

lemma newAddrs_empty: "newAddrs cl n es = [] \<longleftrightarrow> idsOf cl es = {}"
  by (induction es arbitrary: n) (simp_all add: idsOf_Cons)

lemma registerAll_objs:
  "mapGet (jsonObjs (registerAll p es r)) k =
     (case regLookup JsonObj (length (heap r)) es k of
        Some a \<Rightarrow> Some a
      | None \<Rightarrow> mapGet (jsonObjs r) k)"
proof (induction es arbitrary: r)
  case Nil
  show ?case by simp
next
  case (Cons e es)
  show ?case
    using Cons.IH [of "registerEntity p e r"]
    by (simp add: registerEntity_objs split: option.splits)
qed

lemma registerAll_schemas:
  "mapGet (jsonSchemas (registerAll p es r)) k =
     (case regLookup JsonSchema (length (heap r)) es k of
        Some a \<Rightarrow> Some a
      | None \<Rightarrow> mapGet (jsonSchemas r) k)"
proof (induction es arbitrary: r)
  case Nil
  show ?case by simp
next
  case (Cons e es)
  show ?case
    using Cons.IH [of "registerEntity p e r"]
    by (simp add: registerEntity_schemas split: option.splits)
qed

lemma registerAll_fileObjs_get:
  "mapGet (jsonFileObjs (registerAll p es r)) k =
     (if k = p \<and> newAddrs JsonObj (length (heap r)) es \<noteq> []
      then Some (orEmpty (mapGet (jsonFileObjs r) p) @ newAddrs JsonObj (length (heap r)) es)
      else mapGet (jsonFileObjs r) k)"
proof (induction es arbitrary: r)
  case Nil
  show ?case by simp
next
  case (Cons e es)
  let ?r' = "registerEntity p e r"
  note ih = Cons.IH [of ?r']
  show ?case
  proof (cases "entClass e = JsonObj")
    case True
    have g: "mapGet (jsonFileObjs ?r') p = Some (orEmpty (mapGet (jsonFileObjs r) p) @ [length (heap r)])"
      using True by (simp add: registerEntity_fileObjs)
    have o: "\<And>q. q \<noteq> p \<Longrightarrow> mapGet (jsonFileObjs ?r') q = mapGet (jsonFileObjs r) q"
      by (simp add: registerEntity_fileObjs)
    show ?thesis
    proof (cases "k = p")
      case True
      then show ?thesis using ih g \<open>entClass e = JsonObj\<close> by (simp add: orEmpty_def)
    next
      case False
      then show ?thesis using ih o by simp
    qed
  next
    case False
    have g: "\<And>q. mapGet (jsonFileObjs ?r') q = mapGet (jsonFileObjs r) q"
      using False by (simp add: registerEntity_fileObjs)
    show ?thesis using ih g False by simp
  qed
qed

lemma registerAll_fileSchemas_get:
  "mapGet (jsonFileSchemas (registerAll p es r)) k =
     (if k = p \<and> newAddrs JsonSchema (length (heap r)) es \<noteq> []
      then Some (orEmpty (mapGet (jsonFileSchemas r) p) @ newAddrs JsonSchema (length (heap r)) es)
      else mapGet (jsonFileSchemas r) k)"
proof (induction es arbitrary: r)
  case Nil
  show ?case by simp
next
  case (Cons e es)
  let ?r' = "registerEntity p e r"
  note ih = Cons.IH [of ?r']
  show ?case
  proof (cases "entClass e = JsonSchema")
    case True
    have g: "mapGet (jsonFileSchemas ?r') p = Some (orEmpty (mapGet (jsonFileSchemas r) p) @ [length (heap r)])"
      using True by (simp add: registerEntity_fileSchemas)
    have o: "\<And>q. q \<noteq> p \<Longrightarrow> mapGet (jsonFileSchemas ?r') q = mapGet (jsonFileSchemas r) q"
      by (simp add: registerEntity_fileSchemas)
    show ?thesis
    proof (cases "k = p")
      case True
      then show ?thesis using ih g \<open>entClass e = JsonSchema\<close> by (simp add: orEmpty_def)
    next
      case False
      then show ?thesis using ih o by simp
    qed
  next
    case False
    have g: "\<And>q. mapGet (jsonFileSchemas ?r') q = mapGet (jsonFileSchemas r) q"
      using False by (simp add: registerEntity_fileSchemas)
    show ?thesis using ih g False by simp
  qed
qed

lemma invalidateFile_objs_get:
  "mapGet (jsonObjs (invalidateFile p r)) k =
     (if k \<in> set (entityIds (heap r) (orEmpty (mapGet (jsonFileObjs r) p))) then None
      else mapGet (jsonObjs r) k)"
  by (simp add: invalidateFile_jsonObjs mapGet_def map_of_filter_keys)

lemma invalidateFile_schemas_get:
  "mapGet (jsonSchemas (invalidateFile p r)) k =
     (if k \<in> set (entityIds (heap r) (orEmpty (mapGet (jsonFileSchemas r) p))) then None
      else mapGet (jsonSchemas r) k)"
  by (simp add: invalidateFile_jsonSchemas mapGet_def map_of_filter_keys)

lemma invalidateFile_fileObjs_get:
  "mapGet (jsonFileObjs (invalidateFile p r)) k =
     (if k = p then (if mapHas (jsonFileObjs r) p then Some [] else None)
      else mapGet (jsonFileObjs r) k)"
  by (auto simp: invalidateFile_jsonFileObjs mapHas_def mapGet_def map_of_mapSet map_of_mapDelete)

lemma invalidateFile_fileSchemas_get:
  "mapGet (jsonFileSchemas (invalidateFile p r)) k =
     (if k = p then (if mapHas (jsonFileSchemas r) p then Some [] else None)
      else mapGet (jsonFileSchemas r) k)"
  by (auto simp: invalidateFile_jsonFileSchemas mapHas_def mapGet_def map_of_mapSet map_of_mapDelete)

lemma processFileContent_registerAll:
  "processFileContent env p n c cfg r =
     (let jf = newJsonFile env p n c;
          es = fileEntities env p n c cfg;
          r2 = registerAll p es (invalidateFile p r)
      in if hasParseErrors jf then r2\<lparr>invalidFiles := mapSet (invalidFiles r2) p jf\<rparr>
         else if es \<noteq> [] then r2\<lparr>jsonFiles := mapSet (jsonFiles r2) p jf\<rparr>
         else r2)"
proof (cases "hasParseErrors (newJsonFile env p n c)")
  case True
  then show ?thesis
    by (simp add: processFileContent_invalid fileEntities_def Let_def)
next
  case False
  then show ?thesis
    by (simp add: processFileContent_valid fileEntities_def Let_def)
qed

lemma processFileContent_raw:
  "jsonObjs (processFileContent env p n c cfg r)
     = jsonObjs (registerAll p (fileEntities env p n c cfg) (invalidateFile p r))"
  "jsonSchemas (processFileContent env p n c cfg r)
     = jsonSchemas (registerAll p (fileEntities env p n c cfg) (invalidateFile p r))"
  "jsonFileObjs (processFileContent env p n c cfg r)
     = jsonFileObjs (registerAll p (fileEntities env p n c cfg) (invalidateFile p r))"
  "jsonFileSchemas (processFileContent env p n c cfg r)
     = jsonFileSchemas (registerAll p (fileEntities env p n c cfg) (invalidateFile p r))"
  by (simp_all add: processFileContent_registerAll Let_def)

lemma processFileContent_heap:
  "heap (processFileContent env p n c cfg r) = heap r @ fileEntities env p n c cfg"
  by (simp add: processFileContent_registerAll Let_def)

lemma processFileContent_absent [simp]:
  "absentGtsEntities (processFileContent env p n c cfg r) = absentGtsEntities r"
  by (simp add: processFileContent_registerAll Let_def)

lemma processFileContent_objs:
  "mapGet (jsonObjs (processFileContent env p n c cfg r)) k =
     (case regLookup JsonObj (length (heap r)) (fileEntities env p n c cfg) k of
        Some a \<Rightarrow> Some a
      | None \<Rightarrow>
          if k \<in> set (entityIds (heap r) (orEmpty (mapGet (jsonFileObjs r) p))) then None
          else mapGet (jsonObjs r) k)"
  unfolding processFileContent_raw registerAll_objs invalidateFile_objs_get by simp

lemma processFileContent_schemas:
  "mapGet (jsonSchemas (processFileContent env p n c cfg r)) k =
     (case regLookup JsonSchema (length (heap r)) (fileEntities env p n c cfg) k of
        Some a \<Rightarrow> Some a
      | None \<Rightarrow>
          if k \<in> set (entityIds (heap r) (orEmpty (mapGet (jsonFileSchemas r) p))) then None
          else mapGet (jsonSchemas r) k)"
  unfolding processFileContent_raw registerAll_schemas invalidateFile_schemas_get by simp

lemma processFileContent_fileObjs:
  "mapGet (jsonFileObjs (processFileContent env p n c cfg r)) k =
     (if k = p
      then (if newAddrs JsonObj (length (heap r)) (fileEntities env p n c cfg) \<noteq> []
            then Some (newAddrs JsonObj (length (heap r)) (fileEntities env p n c cfg))
            else if mapHas (jsonFileObjs r) p then Some [] else None)
      else mapGet (jsonFileObjs r) k)"
  unfolding processFileContent_raw registerAll_fileObjs_get invalidateFile_fileObjs_get
  by (simp add: orEmpty_def)

lemma processFileContent_fileSchemas:
  "mapGet (jsonFileSchemas (processFileContent env p n c cfg r)) k =
     (if k = p
      then (if newAddrs JsonSchema (length (heap r)) (fileEntities env p n c cfg) \<noteq> []
            then Some (newAddrs JsonSchema (length (heap r)) (fileEntities env p n c cfg))
            else if mapHas (jsonFileSchemas r) p then Some [] else None)
      else mapGet (jsonFileSchemas r) k)"
  unfolding processFileContent_raw registerAll_fileSchemas_get invalidateFile_fileSchemas_get
  by (simp add: orEmpty_def)

lemma processFileContent_files:
  "mapGet (jsonFiles (processFileContent env p n c cfg r)) k =
     (if k = p
      then (if fileEntities env p n c cfg \<noteq> [] then Some (newJsonFile env p n c) else None)
      else mapGet (jsonFiles r) k)"
  by (auto simp: processFileContent_registerAll Let_def invalidateFile_jsonFiles
      mapGet_mapSet mapGet_mapDelete fileEntities_def)

lemma processFileContent_invalidFiles:
  "mapGet (invalidFiles (processFileContent env p n c cfg r)) k =
     (if k = p
      then (if hasParseErrors (newJsonFile env p n c) then Some (newJsonFile env p n c) else None)
      else mapGet (invalidFiles r) k)"
  by (auto simp: processFileContent_registerAll Let_def invalidateFile_invalidFiles
      mapGet_mapSet mapGet_mapDelete)

section \<open>The invariant of the registry\<close>

lemma wellFormed_newRegistry: "wellFormed newRegistry"
  by (simp add: wellFormed_def distinctKeys_def reach_def newRegistry_def mapGet_def)

lemma wellFormed_reach: "wellFormed r \<Longrightarrow> a \<in> reach r \<Longrightarrow> a < length (heap r)"
  by (simp add: wellFormed_def)

lemma distinct_keys_mapSet: "distinct (map fst m) \<Longrightarrow> distinct (map fst (mapSet m k v))"
proof (induction m)
  case Nil
  show ?case by simp
next
  case (Cons x m)
  have keys: "set (map fst (mapSet m k v)) = insert k (set (map fst m))"
    by (induction m) auto
  show ?case using Cons keys by auto
qed

lemma distinct_keys_filter: "distinct (map fst m) \<Longrightarrow> distinct (map fst (filter P m))"
  by (rule distinct_map_filter)

lemma distinctKeys_registerEntity: "distinctKeys r \<Longrightarrow> distinctKeys (registerEntity p e r)"
  by (simp add: distinctKeys_def registerEntity_def Let_def distinct_keys_mapSet)

lemma distinctKeys_registerAll: "distinctKeys r \<Longrightarrow> distinctKeys (registerAll p es r)"
  by (induction es arbitrary: r) (simp_all add: distinctKeys_registerEntity)

lemma distinctKeys_invalidateFile: "distinctKeys r \<Longrightarrow> distinctKeys (invalidateFile p r)"
  by (simp add: distinctKeys_def invalidateFile_jsonObjs invalidateFile_jsonSchemas
      distinct_keys_filter)

lemma distinctKeys_processFileContent:
  "distinctKeys r \<Longrightarrow> distinctKeys (processFileContent env p n c cfg r)"
proof -
  assume "distinctKeys r"
  then have "distinctKeys (registerAll p (fileEntities env p n c cfg) (invalidateFile p r))"
    by (intro distinctKeys_registerAll distinctKeys_invalidateFile)
  then show ?thesis by (simp add: distinctKeys_def processFileContent_raw)
qed

lemma distinctKeys_validateEntities: "distinctKeys (validateEntities env r) = distinctKeys r"
  using validateEntities_maps [of env r] by (simp add: distinctKeys_def)

lemma reach_validateEntities: "reach (validateEntities env r) = reach r"
  using validateEntities_maps [of env r] by (simp add: reach_def)

lemma length_validateEntities: "length (heap (validateEntities env r)) = length (heap r)"
proof -
  have "length (map stripValidation (heap (validateEntities env r)))
      = length (map stripValidation (heap r))"
    by (simp add: validateEntities_strip)
  then show ?thesis by simp
qed

lemma wellFormed_validateEntities: "wellFormed r \<Longrightarrow> wellFormed (validateEntities env r)"
  by (simp add: wellFormed_def distinctKeys_validateEntities reach_validateEntities
      length_validateEntities)

lemma reach_processFileContent:
  assumes "a \<in> reach (processFileContent env p n c cfg r)"
  shows "a \<in> reach r
     \<or> (length (heap r) \<le> a \<and> a < length (heap r) + length (fileEntities env p n c cfg))"
proof -
  let ?P = "processFileContent env p n c cfg r"
  let ?E = "fileEntities env p n c cfg"
  let ?n = "length (heap r)"
  consider k where "mapGet (jsonObjs ?P) k = Some a"
    | k where "mapGet (jsonSchemas ?P) k = Some a"
    | k l where "mapGet (jsonFileObjs ?P) k = Some l" "a \<in> set l"
    | k l where "mapGet (jsonFileSchemas ?P) k = Some l" "a \<in> set l"
    using assms by (auto simp: reach_def)
  then show ?thesis
  proof cases
    case 1
    show ?thesis
    proof (cases "regLookup JsonObj ?n ?E k")
      case None
      then have "mapGet (jsonObjs r) k = Some a"
        using 1 by (simp add: processFileContent_objs split: if_splits)
      then show ?thesis by (auto simp: reach_def)
    next
      case (Some b)
      then have "b = a" using 1 by (simp add: processFileContent_objs)
      then show ?thesis using regLookup_bounds [OF Some] by simp
    qed
  next
    case 2
    show ?thesis
    proof (cases "regLookup JsonSchema ?n ?E k")
      case None
      then have "mapGet (jsonSchemas r) k = Some a"
        using 2 by (simp add: processFileContent_schemas split: if_splits)
      then show ?thesis by (auto simp: reach_def)
    next
      case (Some b)
      then have "b = a" using 2 by (simp add: processFileContent_schemas)
      then show ?thesis using regLookup_bounds [OF Some] by simp
    qed
  next
    case 3
    show ?thesis
    proof (cases "k = p")
      case True
      then have "a \<in> set (newAddrs JsonObj ?n ?E)"
        using 3 by (auto simp: processFileContent_fileObjs split: if_splits)
      then show ?thesis using newAddrs_bounds by blast
    next
      case False
      then have "mapGet (jsonFileObjs r) k = Some l"
        using 3 by (simp add: processFileContent_fileObjs)
      then show ?thesis using 3(2) by (auto simp: reach_def)
    qed
  next
    case 4
    show ?thesis
    proof (cases "k = p")
      case True
      then have "a \<in> set (newAddrs JsonSchema ?n ?E)"
        using 4 by (auto simp: processFileContent_fileSchemas split: if_splits)
      then show ?thesis using newAddrs_bounds by blast
    next
      case False
      then have "mapGet (jsonFileSchemas r) k = Some l"
        using 4 by (simp add: processFileContent_fileSchemas)
      then show ?thesis using 4(2) by (auto simp: reach_def)
    qed
  qed
qed

lemma wellFormed_processFileContent:
  assumes "wellFormed r"
  shows "wellFormed (processFileContent env p n c cfg r)"
proof -
  have d: "distinctKeys (processFileContent env p n c cfg r)"
    using assms by (simp add: wellFormed_def distinctKeys_processFileContent)
  have b: "\<forall>a \<in> reach (processFileContent env p n c cfg r).
      a < length (heap (processFileContent env p n c cfg r))"
  proof
    fix a assume "a \<in> reach (processFileContent env p n c cfg r)"
    then have "a \<in> reach r
      \<or> (length (heap r) \<le> a \<and> a < length (heap r) + length (fileEntities env p n c cfg))"
      by (rule reach_processFileContent)
    then show "a < length (heap (processFileContent env p n c cfg r))"
      using wellFormed_reach [OF assms, of a] by (auto simp: processFileContent_heap)
  qed
  show ?thesis using d b by (simp add: wellFormed_def)
qed

lemma wellFormed_processFiles: "wellFormed r \<Longrightarrow> wellFormed (processFiles env cfg fs r)"
  by (induction fs arbitrary: r) (simp_all add: wellFormed_processFileContent)

lemma wellFormed_ingestFiles: "wellFormed r \<Longrightarrow> wellFormed (ingestFiles env fs cfg r)"
  by (simp add: ingestFiles_def wellFormed_validateEntities wellFormed_processFiles)

section \<open>Processing a file a second time\<close>

lemma variantOf_refl: "variantOf t t"
  by (simp add: variantOf_def)

lemma variantOf_validateEntities: "variantOf t (validateEntities env t)"
  using validateEntities_maps [of env t]
  by (simp add: variantOf_def validateEntities_strip validateEntities_nth
      validateEntities_absent mapGet_def)

lemma variantOf_length: "variantOf t u \<Longrightarrow> length (heap u) = length (heap t)"
  unfolding variantOf_def by (metis length_map)

lemma variantOf_nth:
  assumes "variantOf t u" and "a < length (heap t)"
  shows "stripValidation (heap u ! a) = stripValidation (heap t ! a)"
proof -
  have l: "a < length (heap u)" using assms variantOf_length by simp
  have "map stripValidation (heap u) ! a = map stripValidation (heap t) ! a"
    using assms(1) by (simp add: variantOf_def)
  then show ?thesis using l assms(2) by simp
qed

lemma variant_related:
  assumes wf: "wellFormed t" and v: "variantOf t u"
  shows "related (\<lambda>a. a) t u"
proof -
  have maps: "jsonObjs u = jsonObjs t" "jsonSchemas u = jsonSchemas t"
    "jsonFiles u = jsonFiles t" "invalidFiles u = invalidFiles t"
    "jsonFileObjs u = jsonFileObjs t" "jsonFileSchemas u = jsonFileSchemas t"
    "defaultFilePath u = defaultFilePath t"
    using v by (simp_all add: variantOf_def)
  have ab: "\<forall>i. i \<notin> missingIn t (mainAddrs t) \<longrightarrow>
           mapGet (absentGtsEntities u) i = mapGet (absentGtsEntities t) i"
    using v by (simp add: variantOf_def)
  have hp: "\<forall>a \<in> reach t.
           a < length (heap t) \<and> a < length (heap u)
           \<and> stripValidation (heap u ! a) = stripValidation (heap t ! a)
           \<and> (a \<notin> mainAddrs t \<longrightarrow> heap u ! a = heap t ! a)"
  proof
    fix a assume "a \<in> reach t"
    then have a: "a < length (heap t)" using wf by (rule wellFormed_reach [rotated])
    have "a \<notin> mainAddrs t \<longrightarrow> heap u ! a = heap t ! a"
      using v a by (simp add: variantOf_def)
    then show "a < length (heap t) \<and> a < length (heap u)
           \<and> stripValidation (heap u ! a) = stripValidation (heap t ! a)
           \<and> (a \<notin> mainAddrs t \<longrightarrow> heap u ! a = heap t ! a)"
      using a variantOf_length [OF v] variantOf_nth [OF v a] by simp
  qed
  show ?thesis
    unfolding related_def maps using ab hp by (simp add: option.map_ident)
qed

lemma map_eq_nth:
  assumes "map f xs = map f ys" and "a < length xs"
  shows "f (xs ! a) = f (ys ! a)"
proof -
  have l: "length xs = length ys" using assms(1) by (rule map_eq_imp_length_eq)
  have "map f xs ! a = map f ys ! a" using assms(1) by simp
  then show ?thesis using assms(2) l by (simp only: nth_map)
qed

lemma entityIds_nth:
  "\<forall>a \<in> set as. a < length h \<Longrightarrow> entityIds h as = map (\<lambda>a. entId (h ! a)) as"
  by (induction as) (simp_all add: deref_def)

lemma newAddrs_ids:
  "set (map (\<lambda>a. entId ((h @ es) ! a)) (newAddrs cl (length h) es)) = idsOf cl es"
proof -
  have "map (\<lambda>a. entId ((h @ es) ! a)) (newAddrs cl (length h) es)
      = map entId (map (\<lambda>a. (h @ es) ! a) (newAddrs cl (length h) es))"
    by simp
  also have "\<dots> = map entId (filter (\<lambda>e. entClass e = cl) es)"
    unfolding nth_newAddrs ..
  finally show ?thesis by (auto simp: idsOf_def)
qed

text \<open>The ids \<^verbatim>\<open>invalidateFile\<close> deletes when the lists of the path are those a run
  of \<^verbatim>\<open>processFileContent\<close> has just left.\<close>

lemma reprocess_deleted_ids:
  assumes hu: "map stripValidation hu = map stripValidation (h @ es)"
  shows "set (entityIds hu (newAddrs cl (length h) es)) = idsOf cl es"
proof -
  have len: "length hu = length h + length es"
    using hu by (metis length_map length_append)
  have b: "\<forall>a \<in> set (newAddrs cl (length h) es). a < length hu"
    using newAddrs_bounds [of _ cl "length h" es] len by auto
  have same: "\<And>a. a \<in> set (newAddrs cl (length h) es) \<Longrightarrow>
      entId (hu ! a) = entId ((h @ es) ! a)"
  proof -
    fix a assume "a \<in> set (newAddrs cl (length h) es)"
    then have a: "a < length hu" using b by simp
    have "stripValidation (hu ! a) = stripValidation ((h @ es) ! a)"
      using hu a by (rule map_eq_nth)
    then show "entId (hu ! a) = entId ((h @ es) ! a)" by (rule stripValidation_eqD(1))
  qed
  have "entityIds hu (newAddrs cl (length h) es)
      = map (\<lambda>a. entId (hu ! a)) (newAddrs cl (length h) es)"
    using b by (rule entityIds_nth)
  also have "\<dots> = map (\<lambda>a. entId ((h @ es) ! a)) (newAddrs cl (length h) es)"
    using same by simp
  finally show ?thesis using newAddrs_ids [of h es cl] by simp
qed

lemma inj_shiftFrom: "inj (shiftFrom n d)"
  by (rule injI) (auto simp: shiftFrom_def split: if_splits)

lemma shiftFrom_newAddrs: "map (shiftFrom n d) (newAddrs cl n es) = newAddrs cl (n + d) es"
proof -
  have "\<And>a. a \<in> set (newAddrs cl n es) \<Longrightarrow> shiftFrom n d a = a + d"
  proof -
    fix a assume "a \<in> set (newAddrs cl n es)"
    then have "n \<le> a" using newAddrs_bounds by blast
    then show "shiftFrom n d a = a + d" by (simp add: shiftFrom_def)
  qed
  then have "map (shiftFrom n d) (newAddrs cl n es) = map (\<lambda>a. a + d) (newAddrs cl n es)"
    by simp
  then show ?thesis by (simp add: newAddrs_shift)
qed

lemma reindex_lookup:
  assumes pu: "mpu = (case regLookup cl (n + d) es k of
                        Some a \<Rightarrow> Some a
                      | None \<Rightarrow> if k \<in> idsOf cl es then None else mt)"
    and tt: "mt = (case regLookup cl n es k of
                     Some a \<Rightarrow> Some a
                   | None \<Rightarrow> if k \<in> old then None else mr)"
    and old: "\<And>a. mr = Some a \<Longrightarrow> a < n"
  shows "mpu = map_option (shiftFrom n d) mt"
proof (cases "regLookup cl n es k")
  case None
  then have k: "k \<notin> idsOf cl es" by (simp add: regLookup_None)
  have sh: "regLookup cl (n + d) es k = None" using None by (simp add: regLookup_shift)
  have e: "mpu = mt" using pu sh k by simp
  have "map_option (shiftFrom n d) mt = mt"
  proof (cases mt)
    case None
    then show ?thesis by simp
  next
    case (Some a)
    then have "mr = Some a" using tt \<open>regLookup cl n es k = None\<close> by (simp split: if_splits)
    then have "a < n" by (rule old)
    then show ?thesis using Some by (simp add: shiftFrom_def)
  qed
  then show ?thesis using e by simp
next
  case (Some a)
  then have b: "n \<le> a" using regLookup_bounds by blast
  have sh: "regLookup cl (n + d) es k = Some (a + d)" using Some by (simp add: regLookup_shift)
  have "mt = Some a" using tt Some by simp
  then show ?thesis using pu sh b by (simp add: shiftFrom_def)
qed

lemma relist_lookup:
  assumes pu: "lpu = (if k = p
                      then (if newAddrs cl (n + d) es \<noteq> [] then Some (newAddrs cl (n + d) es)
                            else if ltp \<noteq> None then Some [] else None)
                      else lt)"
    and tt: "lt = (if k = p then ltp else lr)"
    and tp: "ltp = (if newAddrs cl n es \<noteq> [] then Some (newAddrs cl n es)
                    else if hasR then Some [] else None)"
    and old: "\<And>l a. k \<noteq> p \<Longrightarrow> lr = Some l \<Longrightarrow> a \<in> set l \<Longrightarrow> a < n"
  shows "lpu = map_option (map (shiftFrom n d)) lt"
proof (cases "k = p")
  case True
  have e: "newAddrs cl (n + d) es = [] \<longleftrightarrow> newAddrs cl n es = []"
    by (simp add: newAddrs_empty)
  show ?thesis
  proof (cases "newAddrs cl n es = []")
    case True
    then show ?thesis using \<open>k = p\<close> pu tt tp e by simp
  next
    case False
    then show ?thesis using \<open>k = p\<close> pu tt tp e by (simp add: shiftFrom_newAddrs)
  qed
next
  case False
  have "map_option (map (shiftFrom n d)) lr = lr"
  proof (cases lr)
    case None
    then show ?thesis by simp
  next
    case (Some l)
    then have "\<And>a. a \<in> set l \<Longrightarrow> shiftFrom n d a = a"
      using old [OF False] by (simp add: shiftFrom_def)
    then have "map (shiftFrom n d) l = l" by (simp add: map_idI)
    then show ?thesis using Some by simp
  qed
  then show ?thesis using False pu tt by simp
qed

lemma reprocess_related:
  assumes wf: "wellFormed r"
    and t: "t = processFileContent env p n c cfg r"
    and v: "variantOf t u"
  shows "related (shiftFrom (length (heap r)) (length (fileEntities env p n c cfg)))
           t (processFileContent env p n c cfg u)"
proof -
  let ?E = "fileEntities env p n c cfg"
  let ?n = "length (heap r)"
  let ?d = "length ?E"
  let ?f = "shiftFrom ?n ?d"
  let ?pu = "processFileContent env p n c cfg u"
  have ht: "heap t = heap r @ ?E" unfolding t by (rule processFileContent_heap)
  have lu: "length (heap u) = ?n + ?d" using variantOf_length [OF v] ht by simp
  have hpu: "heap ?pu = heap u @ ?E" by (rule processFileContent_heap)
  have wft: "wellFormed t" unfolding t using wf by (rule wellFormed_processFileContent)
  have maps: "jsonObjs u = jsonObjs t" "jsonSchemas u = jsonSchemas t"
    "jsonFiles u = jsonFiles t" "invalidFiles u = invalidFiles t"
    "jsonFileObjs u = jsonFileObjs t" "jsonFileSchemas u = jsonFileSchemas t"
    "defaultFilePath u = defaultFilePath t"
    using v by (simp_all add: variantOf_def)
  have su: "map stripValidation (heap u) = map stripValidation (heap r @ ?E)"
    using v ht by (simp add: variantOf_def)
  have below: "\<And>a. a \<in> reach r \<Longrightarrow> a < ?n"
    using wf by (simp add: wellFormed_def)
  have belowO: "\<And>k a. mapGet (jsonObjs r) k = Some a \<Longrightarrow> a < ?n"
    and belowS: "\<And>k a. mapGet (jsonSchemas r) k = Some a \<Longrightarrow> a < ?n"
    and belowFO: "\<And>k l a. mapGet (jsonFileObjs r) k = Some l \<Longrightarrow> a \<in> set l \<Longrightarrow> a < ?n"
    and belowFS: "\<And>k l a. mapGet (jsonFileSchemas r) k = Some l \<Longrightarrow> a \<in> set l \<Longrightarrow> a < ?n"
    using below unfolding reach_def by blast+

  have tfo: "mapGet (jsonFileObjs t) p =
      (if newAddrs JsonObj ?n ?E \<noteq> [] then Some (newAddrs JsonObj ?n ?E)
       else if mapHas (jsonFileObjs r) p then Some [] else None)"
    unfolding t by (simp add: processFileContent_fileObjs)
  have tfs: "mapGet (jsonFileSchemas t) p =
      (if newAddrs JsonSchema ?n ?E \<noteq> [] then Some (newAddrs JsonSchema ?n ?E)
       else if mapHas (jsonFileSchemas r) p then Some [] else None)"
    unfolding t by (simp add: processFileContent_fileSchemas)
  have lo: "orEmpty (mapGet (jsonFileObjs u) p) = newAddrs JsonObj ?n ?E"
    unfolding maps tfo by (simp add: orEmpty_def)
  have ls: "orEmpty (mapGet (jsonFileSchemas u) p) = newAddrs JsonSchema ?n ?E"
    unfolding maps tfs by (simp add: orEmpty_def)
  have delO: "set (entityIds (heap u) (orEmpty (mapGet (jsonFileObjs u) p))) = idsOf JsonObj ?E"
    unfolding lo using su by (rule reprocess_deleted_ids)
  have delS: "set (entityIds (heap u) (orEmpty (mapGet (jsonFileSchemas u) p))) = idsOf JsonSchema ?E"
    unfolding ls using su by (rule reprocess_deleted_ids)

  have objs: "\<forall>k. mapGet (jsonObjs ?pu) k = map_option ?f (mapGet (jsonObjs t) k)"
  proof
    fix k
    show "mapGet (jsonObjs ?pu) k = map_option ?f (mapGet (jsonObjs t) k)"
    proof (rule reindex_lookup)
      show "mapGet (jsonObjs ?pu) k =
          (case regLookup JsonObj (?n + ?d) ?E k of
             Some a \<Rightarrow> Some a
           | None \<Rightarrow> if k \<in> idsOf JsonObj ?E then None else mapGet (jsonObjs t) k)"
        unfolding processFileContent_objs lu delO maps(1) ..
      show "mapGet (jsonObjs t) k =
          (case regLookup JsonObj ?n ?E k of
             Some a \<Rightarrow> Some a
           | None \<Rightarrow>
               if k \<in> set (entityIds (heap r) (orEmpty (mapGet (jsonFileObjs r) p))) then None
               else mapGet (jsonObjs r) k)"
        unfolding t by (rule processFileContent_objs)
      show "\<And>a. mapGet (jsonObjs r) k = Some a \<Longrightarrow> a < ?n"
        by (rule belowO)
    qed
  qed
  have schemas: "\<forall>k. mapGet (jsonSchemas ?pu) k = map_option ?f (mapGet (jsonSchemas t) k)"
  proof
    fix k
    show "mapGet (jsonSchemas ?pu) k = map_option ?f (mapGet (jsonSchemas t) k)"
    proof (rule reindex_lookup)
      show "mapGet (jsonSchemas ?pu) k =
          (case regLookup JsonSchema (?n + ?d) ?E k of
             Some a \<Rightarrow> Some a
           | None \<Rightarrow> if k \<in> idsOf JsonSchema ?E then None else mapGet (jsonSchemas t) k)"
        unfolding processFileContent_schemas lu delS maps(2) ..
      show "mapGet (jsonSchemas t) k =
          (case regLookup JsonSchema ?n ?E k of
             Some a \<Rightarrow> Some a
           | None \<Rightarrow>
               if k \<in> set (entityIds (heap r) (orEmpty (mapGet (jsonFileSchemas r) p))) then None
               else mapGet (jsonSchemas r) k)"
        unfolding t by (rule processFileContent_schemas)
      show "\<And>a. mapGet (jsonSchemas r) k = Some a \<Longrightarrow> a < ?n"
        by (rule belowS)
    qed
  qed
  have fobjs: "\<forall>k. mapGet (jsonFileObjs ?pu) k = map_option (map ?f) (mapGet (jsonFileObjs t) k)"
  proof
    fix k
    show "mapGet (jsonFileObjs ?pu) k = map_option (map ?f) (mapGet (jsonFileObjs t) k)"
    proof (rule relist_lookup)
      show "mapGet (jsonFileObjs ?pu) k =
          (if k = p
           then (if newAddrs JsonObj (?n + ?d) ?E \<noteq> [] then Some (newAddrs JsonObj (?n + ?d) ?E)
                 else if mapGet (jsonFileObjs t) p \<noteq> None then Some [] else None)
           else mapGet (jsonFileObjs t) k)"
        using processFileContent_fileObjs [of env p n c cfg u k] lu maps
        by (simp add: mapHas_def mapGet_def)
      show "mapGet (jsonFileObjs t) k =
          (if k = p then mapGet (jsonFileObjs t) p else mapGet (jsonFileObjs r) k)"
        unfolding t by (simp add: processFileContent_fileObjs)
      show "mapGet (jsonFileObjs t) p =
          (if newAddrs JsonObj ?n ?E \<noteq> [] then Some (newAddrs JsonObj ?n ?E)
           else if mapHas (jsonFileObjs r) p then Some [] else None)"
        by (rule tfo)
      show "\<And>l a. k \<noteq> p \<Longrightarrow> mapGet (jsonFileObjs r) k = Some l \<Longrightarrow> a \<in> set l \<Longrightarrow> a < ?n"
        by (rule belowFO)
    qed
  qed
  have fschemas: "\<forall>k. mapGet (jsonFileSchemas ?pu) k
      = map_option (map ?f) (mapGet (jsonFileSchemas t) k)"
  proof
    fix k
    show "mapGet (jsonFileSchemas ?pu) k = map_option (map ?f) (mapGet (jsonFileSchemas t) k)"
    proof (rule relist_lookup)
      show "mapGet (jsonFileSchemas ?pu) k =
          (if k = p
           then (if newAddrs JsonSchema (?n + ?d) ?E \<noteq> []
                 then Some (newAddrs JsonSchema (?n + ?d) ?E)
                 else if mapGet (jsonFileSchemas t) p \<noteq> None then Some [] else None)
           else mapGet (jsonFileSchemas t) k)"
        using processFileContent_fileSchemas [of env p n c cfg u k] lu maps
        by (simp add: mapHas_def mapGet_def)
      show "mapGet (jsonFileSchemas t) k =
          (if k = p then mapGet (jsonFileSchemas t) p else mapGet (jsonFileSchemas r) k)"
        unfolding t by (simp add: processFileContent_fileSchemas)
      show "mapGet (jsonFileSchemas t) p =
          (if newAddrs JsonSchema ?n ?E \<noteq> [] then Some (newAddrs JsonSchema ?n ?E)
           else if mapHas (jsonFileSchemas r) p then Some [] else None)"
        by (rule tfs)
      show "\<And>l a. k \<noteq> p \<Longrightarrow> mapGet (jsonFileSchemas r) k = Some l \<Longrightarrow> a \<in> set l \<Longrightarrow> a < ?n"
        by (rule belowFS)
    qed
  qed
  have files: "\<forall>k. mapGet (jsonFiles ?pu) k = mapGet (jsonFiles t) k"
    unfolding t by (simp add: processFileContent_files maps [unfolded t])
  have invalid: "\<forall>k. mapGet (invalidFiles ?pu) k = mapGet (invalidFiles t) k"
    unfolding t by (simp add: processFileContent_invalidFiles maps [unfolded t])
  have dflt: "defaultFilePath ?pu = defaultFilePath t"
    using maps by simp
  have absent: "\<forall>i. i \<notin> missingIn t (mainAddrs t) \<longrightarrow>
      mapGet (absentGtsEntities ?pu) i = mapGet (absentGtsEntities t) i"
    using v by (simp add: variantOf_def)
  have inj: "inj_on ?f (reach t)"
    using inj_shiftFrom by (rule inj_on_subset) simp
  have hp: "\<forall>a \<in> reach t.
      a < length (heap t) \<and> ?f a < length (heap ?pu)
      \<and> stripValidation (heap ?pu ! ?f a) = stripValidation (heap t ! a)
      \<and> (a \<notin> mainAddrs t \<longrightarrow> heap ?pu ! ?f a = heap t ! a)"
  proof
    fix a assume "a \<in> reach t"
    then have a: "a < length (heap t)" using wft by (rule wellFormed_reach [rotated])
    then have a': "a < ?n + ?d" using ht by simp
    show "a < length (heap t) \<and> ?f a < length (heap ?pu)
      \<and> stripValidation (heap ?pu ! ?f a) = stripValidation (heap t ! a)
      \<and> (a \<notin> mainAddrs t \<longrightarrow> heap ?pu ! ?f a = heap t ! a)"
    proof (cases "a < ?n")
      case True
      have fa: "?f a = a" using True by (simp add: shiftFrom_def)
      have pu: "heap ?pu ! a = heap u ! a" using hpu lu a' by (simp add: nth_append)
      have st: "stripValidation (heap u ! a) = stripValidation (heap t ! a)"
        using v a by (rule variantOf_nth)
      have eq: "a \<notin> mainAddrs t \<longrightarrow> heap u ! a = heap t ! a"
        using v a by (simp add: variantOf_def)
      show ?thesis unfolding fa pu using a a' st eq hpu lu by simp
    next
      case False
      have fa: "?f a = a + ?d" using False by (simp add: shiftFrom_def)
      have pu: "heap ?pu ! (a + ?d) = ?E ! (a - ?n)"
        using hpu lu False by (simp add: nth_append)
      have tt: "heap t ! a = ?E ! (a - ?n)" using ht False by (simp add: nth_append)
      show ?thesis unfolding fa pu tt using a a' hpu lu by simp
    qed
  qed
  show ?thesis
    unfolding related_def
    using objs schemas fobjs fschemas files invalid dflt absent inj hp by blast
qed

section \<open>The two indices after a file is processed\<close>

lemma regLookup_Some:
  "regLookup cl n es k = Some a \<Longrightarrow> entClass (es ! (a - n)) = cl \<and> entId (es ! (a - n)) = k"
proof (induction es arbitrary: n)
  case Nil
  then show ?case by simp
next
  case (Cons e es)
  show ?case
  proof (cases "regLookup cl (Suc n) es k")
    case None
    then have "a = n" and "entClass e = cl" and "entId e = k"
      using Cons.prems by (auto split: if_splits)
    then show ?thesis by simp
  next
    case (Some b)
    then have ab: "a = b" using Cons.prems by simp
    have bd: "Suc n \<le> b" using regLookup_bounds [OF Some] by simp
    have "entClass (es ! (b - Suc n)) = cl \<and> entId (es ! (b - Suc n)) = k"
      using Cons.IH [OF Some [unfolded ab [symmetric]]] ab by simp
    moreover have "(e # es) ! (b - n) = es ! (b - Suc n)"
      using bd by (simp add: nth_Cons' Suc_le_eq)
    ultimately show ?thesis using ab by simp
  qed
qed

text \<open>An entity of the registered list is found under its id, at an address of the list
  that holds an entity of its class and id.\<close>

lemma regLookup_member:
  assumes "e \<in> set es" and "entClass e = cl"
  shows "\<exists>a. regLookup cl (length h) es (entId e) = Some a
           \<and> length h \<le> a \<and> a < length (h @ es)
           \<and> entId ((h @ es) ! a) = entId e \<and> entClass ((h @ es) ! a) = cl"
proof -
  have "entId e \<in> idsOf cl es" using assms by (auto simp: idsOf_def)
  then have "regLookup cl (length h) es (entId e) \<noteq> None" by (simp add: regLookup_None)
  then obtain a where a: "regLookup cl (length h) es (entId e) = Some a" by blast
  have b: "length h \<le> a \<and> a < length h + length es" by (rule regLookup_bounds [OF a])
  have c: "entClass (es ! (a - length h)) = cl \<and> entId (es ! (a - length h)) = entId e"
    by (rule regLookup_Some [OF a])
  have "(h @ es) ! a = es ! (a - length h)" using b by (simp add: nth_append)
  then show ?thesis using a b c by simp
qed

lemma fileEntities_parsed:
  "\<not> hasParseErrors (newJsonFile env p n c) \<Longrightarrow>
     fileEntities env p n c cfg =
       recognizedEntities env (newJsonFile env p n c) cfg (isArray c) (normalizeToArray c) 0"
  by (simp add: fileEntities_def)

section \<open>The claims\<close>

subsection \<open>C1: what \<^verbatim>\<open>invalidateFile\<close> removes\<close>




subsection \<open>C2: schemas before objects\<close>

text \<open>
  C2. In every full validation pass, the calls of \<^verbatim>\<open>validateEntity\<close> are, in this
  order, one for each entry of \<^verbatim>\<open>jsonSchemas\<close> and then one for each entry of
  \<^verbatim>\<open>jsonObjs\<close>. The first loop makes exactly the schema calls, and in the registry
  it hands to the second loop every schema of the index has its validation result.
  In the sequence of calls, nothing but object calls follows an object call.
\<close>

theorem schemas_validated_before_objects:
  "snd (validateEntitiesTrace env r) =
       map SchemaValidated (mapValues (jsonSchemas r)) @ map ObjValidated (mapValues (jsonObjs r))
   \<and> snd (validateSchemas env (r, [])) = map SchemaValidated (mapValues (jsonSchemas r))
   \<and> validateEntitiesTrace env r = validateObjs env (validateSchemas env (r, []))
   \<and> (\<forall>a \<in> set (mapValues (jsonSchemas r)). a < length (heap r) \<longrightarrow>
         validation (heap (fst (validateSchemas env (r, []))) ! a) \<noteq> None)
   \<and> (\<forall>i j a. i < j \<longrightarrow> j < length (snd (validateEntitiesTrace env r)) \<longrightarrow>
         snd (validateEntitiesTrace env r) ! i = ObjValidated a \<longrightarrow>
         (\<exists>b. snd (validateEntitiesTrace env r) ! j = ObjValidated b))"
proof -
  let ?ss = "map SchemaValidated (mapValues (jsonSchemas r))"
  let ?os = "map ObjValidated (mapValues (jsonObjs r))"
  obtain r1 tr1 where s: "validateSchemas env (r, []) = (r1, tr1)"
    by (cases "validateSchemas env (r, [])")
  have tr1: "tr1 = ?ss"
    using validateLoop_trace [of env SchemaValidated "mapValues (jsonSchemas r)" r "[]"] s
    by (simp add: validateSchemas_def)
  have objs1: "jsonObjs r1 = jsonObjs r"
    using validateSchemas_maps [of env r "[]"] s by simp
  have trace: "snd (validateEntitiesTrace env r) = ?ss @ ?os"
    using validateLoop_trace [of env ObjValidated "mapValues (jsonObjs r1)" r1 tr1] s tr1 objs1
    by (simp add: validateEntitiesTrace_def validateObjs_def)
  have first: "snd (validateSchemas env (r, [])) = ?ss" using s tr1 by simp
  have complete: "\<forall>a \<in> set (mapValues (jsonSchemas r)). a < length (heap r) \<longrightarrow>
         validation (heap (fst (validateSchemas env (r, []))) ! a) \<noteq> None"
  proof (intro ballI impI)
    fix a assume "a \<in> set (mapValues (jsonSchemas r))" and "a < length (heap r)"
    then show "validation (heap (fst (validateSchemas env (r, []))) ! a) \<noteq> None"
      unfolding validateSchemas_def fst_conv
      by (intro validateLoop_validated) simp_all
  qed
  have order: "\<forall>i j a. i < j \<longrightarrow> j < length (?ss @ ?os) \<longrightarrow>
         (?ss @ ?os) ! i = ObjValidated a \<longrightarrow> (\<exists>b. (?ss @ ?os) ! j = ObjValidated b)"
  proof (intro allI impI)
    fix i j a
    assume ij: "i < j" and j: "j < length (?ss @ ?os)" and ev: "(?ss @ ?os) ! i = ObjValidated a"
    have "\<not> i < length ?ss"
    proof
      assume "i < length ?ss"
      then have "(?ss @ ?os) ! i = SchemaValidated (mapValues (jsonSchemas r) ! i)"
        by (simp add: nth_append)
      then show False using ev by simp
    qed
    then have "\<not> j < length ?ss" using ij by simp
    then have "(?ss @ ?os) ! j = ?os ! (j - length ?ss)"
      by (simp add: nth_append)
    moreover have "j - length ?ss < length ?os"
      using j \<open>\<not> j < length ?ss\<close> by simp
    ultimately have "(?ss @ ?os) ! j = ObjValidated (mapValues (jsonObjs r) ! (j - length ?ss))"
      by simp
    then show "\<exists>b. (?ss @ ?os) ! j = ObjValidated b" by blast
  qed
  have split: "validateEntitiesTrace env r = validateObjs env (validateSchemas env (r, []))"
    by (simp add: validateEntitiesTrace_def)
  show ?thesis
    unfolding trace using first complete order split by blast
qed

theorem schemas_validated_before_objects_witness:
  "jsonSchemas schemaObjDemo = [(''S1'', 1)]
   \<and> jsonObjs schemaObjDemo = [(''O1'', 0)]
   \<and> validation (heap schemaObjDemo ! 1) = None
   \<and> snd (validateEntitiesTrace sampleCollaborators schemaObjDemo)
       = [SchemaValidated 1, ObjValidated 0]
   \<and> validation (heap (fst (validateSchemas sampleCollaborators (schemaObjDemo, []))) ! 1) \<noteq> None"
proof -
  have ss: "jsonSchemas schemaObjDemo = [(''S1'', 1)]" by code_simp
  have os: "jsonObjs schemaObjDemo = [(''O1'', 0)]" by code_simp
  have un: "validation (heap schemaObjDemo ! 1) = None" by code_simp
  have len: "length (heap schemaObjDemo) = 2" by code_simp
  note th = schemas_validated_before_objects [of sampleCollaborators schemaObjDemo]
  have "snd (validateEntitiesTrace sampleCollaborators schemaObjDemo) =
       map SchemaValidated (mapValues (jsonSchemas schemaObjDemo))
       @ map ObjValidated (mapValues (jsonObjs schemaObjDemo))"
    using th by blast
  then have tr: "snd (validateEntitiesTrace sampleCollaborators schemaObjDemo)
       = [SchemaValidated 1, ObjValidated 0]"
    using ss os by (simp add: mapValues_def)
  have "\<forall>a \<in> set (mapValues (jsonSchemas schemaObjDemo)). a < length (heap schemaObjDemo) \<longrightarrow>
      validation (heap (fst (validateSchemas sampleCollaborators (schemaObjDemo, []))) ! a) \<noteq> None"
    using th by blast
  then have v: "validation (heap (fst (validateSchemas sampleCollaborators (schemaObjDemo, []))) ! 1) \<noteq> None"
    using ss len by (simp add: mapValues_def)
  from ss os un tr v show ?thesis by blast
qed

subsection \<open>C3: ingesting a file again\<close>

text \<open>
  C3. Let the registry be well formed (every address it holds is an object of the
  store, and both indices have each key once; the new registry is, and ingestion
  keeps it so). For every file and config, ingesting the file twice in one batch,
  or in two successive calls, leaves the index state that ingesting it once leaves:
  every index maps the same keys to equal entities or files, the ownership lists
  hold equal entities in the same order, and the placeholder map and the
  default-file pointer are the same. The state is read through the references,
  so the fresh objects of the second run count by their contents; the insertion
  order of a map is not part of it (when another file had registered an id of the
  file, the second run moves that key to the end of the index).
\<close>

theorem reingestion_idempotent:
  assumes "wellFormed r"
  shows
    "indexState (ingestFiles env [f, f] cfg r) = indexState (ingestFiles env [f] cfg r)
     \<and> indexState (ingestFiles env [f] cfg (ingestFiles env [f] cfg r))
         = indexState (ingestFiles env [f] cfg r)
     \<and> wellFormed (ingestFiles env [f] cfg r)"
proof -
  let ?cfg = "getGtsConfig env cfg"
  let ?P = "processFileContent env (inPath f) (inName f) (inContent f) ?cfg"
  let ?V = "validateEntities env"
  have wf1: "wellFormed (ingestFiles env [f] cfg r)"
    using assms by (rule wellFormed_ingestFiles)
  have dr: "distinctKeys r" using assms by (simp add: wellFormed_def)
  show ?thesis
  proof (cases "inViewerDir (inPath f)")
    case True
    have once: "ingestFiles env [f] cfg r = ?V r"
      and batch: "ingestFiles env [f, f] cfg r = ?V r"
      and again: "ingestFiles env [f] cfg (?V r) = ?V (?V r)"
      using True by (simp_all add: ingestFiles_def)
    have "related (\<lambda>a. a) r (?V r)"
      using assms variantOf_validateEntities by (rule variant_related)
    then have "indexState (?V (?V r)) = indexState (?V r)"
      using dr by (rule related_indexState) (simp add: distinctKeys_validateEntities dr)
    then show ?thesis using once batch again wf1 by simp
  next
    case False
    let ?t = "?P r"
    let ?g = "shiftFrom (length (heap r)) (length (fileEntities env (inPath f) (inName f) (inContent f) ?cfg))"
    have once: "ingestFiles env [f] cfg r = ?V ?t"
      and batch: "ingestFiles env [f, f] cfg r = ?V (?P ?t)"
      and again: "ingestFiles env [f] cfg (?V ?t) = ?V (?P (?V ?t))"
      using False by (simp_all add: ingestFiles_def)
    have wft: "wellFormed ?t" using assms by (rule wellFormed_processFileContent)
    have dt: "distinctKeys ?t" using wft by (simp add: wellFormed_def)
    have dpt: "distinctKeys (?P ?t)"
      using dt by (rule distinctKeys_processFileContent)
    have dpv: "distinctKeys (?P (?V ?t))"
      by (rule distinctKeys_processFileContent) (simp add: distinctKeys_validateEntities dt)
    have "related ?g ?t (?P ?t)"
      using assms refl variantOf_refl by (rule reprocess_related)
    then have b: "indexState (?V (?P ?t)) = indexState (?V ?t)"
      using dt dpt by (rule related_indexState)
    have "related ?g ?t (?P (?V ?t))"
      using assms refl variantOf_validateEntities by (rule reprocess_related)
    then have a: "indexState (?V (?P (?V ?t))) = indexState (?V ?t)"
      using dt dpv by (rule related_indexState)
    show ?thesis using once batch again a b wf1 by simp
  qed
qed

text \<open>The file \<^verbatim>\<open>p.json\<close> declares the id \<open>X\<close> that \<^verbatim>\<open>q.json\<close> registered before.
  One run overwrites the entry of \<open>X\<close> in place, the second run deletes it and
  appends it: the two indices are different lists and the same mapping.\<close>

theorem reingestion_idempotent_witness:
  "wellFormed reingestBase
   \<and> jsonObjs (ingestFiles sampleCollaborators [reingestFile] () reingestBase)
       = [(''X'', 2), (''Y'', 1)]
   \<and> jsonObjs (ingestFiles sampleCollaborators [reingestFile, reingestFile] () reingestBase)
       = [(''Y'', 1), (''X'', 3)]
   \<and> indexState (ingestFiles sampleCollaborators [reingestFile, reingestFile] () reingestBase)
       = indexState (ingestFiles sampleCollaborators [reingestFile] () reingestBase)
   \<and> indexState (ingestFiles sampleCollaborators [reingestFile] ()
         (ingestFiles sampleCollaborators [reingestFile] () reingestBase))
       = indexState (ingestFiles sampleCollaborators [reingestFile] () reingestBase)"
proof -
  have wf: "wellFormed reingestBase"
    unfolding reingestBase_def using wellFormed_newRegistry by (rule wellFormed_ingestFiles)
  have once: "jsonObjs (ingestFiles sampleCollaborators [reingestFile] () reingestBase)
       = [(''X'', 2), (''Y'', 1)]"
    by code_simp
  have twice: "jsonObjs (ingestFiles sampleCollaborators [reingestFile, reingestFile] () reingestBase)
       = [(''Y'', 1), (''X'', 3)]"
    by code_simp
  show ?thesis
    using reingestion_idempotent [OF wf, of sampleCollaborators reingestFile "()"] wf once twice
    by simp
qed

subsection \<open>C4: one integrity error for every unresolved reference\<close>

text \<open>
  C4. Let \<open>e\<close> be the entity at address \<open>a\<close>. After \<^verbatim>\<open>validateEntity\<close> its
  validation result is the list of integrity errors followed by what Phase B
  appends. The integrity errors are, in the order of \<^verbatim>\<open>gtsRefs\<close>, one error for
  each reference whose source path is outside an examples region and whose id is a
  key of neither \<^verbatim>\<open>jsonSchemas\<close> nor \<^verbatim>\<open>jsonObjs\<close>: the error of such a reference
  occurs as often as the reference occurs in \<^verbatim>\<open>gtsRefs\<close> (once, when it is listed
  once), and a reference inside an examples region or with a resolving id has none.
  The error has the slash-converted source path as \<^verbatim>\<open>instancePath\<close> (\<^verbatim>\<open>root\<close> gives
  \<^verbatim>\<open>/\<close>; otherwise a leading slash, every dot a slash, every \<^verbatim>\<open>[i]\<close> a segment
  \<^verbatim>\<open>/i\<close>), the empty keyword, and the message \<^verbatim>\<open>GTS reference not found: \<close>
  followed by the missing id. Read by segments: for a source path that is a field
  name followed by fields (each after a dot) and indices (digits in brackets),
  with names free of dots and opening brackets, the \<^verbatim>\<open>instancePath\<close> is the
  pointer with a slash before every name and every index.
\<close>

theorem unresolved_reference_errors:
  assumes "deref (heap r) a = Some e"
  shows
    "validation (heap (validateEntity env a r) ! a)
        = Some (integrityErrors r e @ phaseB env r e)
     \<and> integrityErrors r e =
         map refNotFound
           (filter (\<lambda>ref. \<not> isInExamples (sourcePath ref)
                          \<and> \<not> mapHas (jsonSchemas r) (refId ref)
                          \<and> \<not> mapHas (jsonObjs r) (refId ref)) (gtsRefs e))
     \<and> (\<forall>ref. count_list (integrityErrors r e) (refNotFound ref) =
           (if \<not> isInExamples (sourcePath ref)
               \<and> \<not> mapHas (jsonSchemas r) (refId ref) \<and> \<not> mapHas (jsonObjs r) (refId ref)
            then count_list (gtsRefs e) ref else 0))
     \<and> (\<forall>ref. instancePath (refNotFound ref) =
              (if sourcePath ref = ''root'' then ''/''
               else CHR ''/'' # indicesToSlashes (dotsToSlashes (sourcePath ref)))
            \<and> keyword (refNotFound ref) = []
            \<and> message (refNotFound ref) = ''GTS reference not found: '' @ refId ref)
     \<and> (\<forall>i f0 segs. plainName f0 \<longrightarrow> (\<forall>s \<in> set segs. plainSegment s) \<longrightarrow>
            dotPath f0 segs \<noteq> ''root'' \<longrightarrow>
            instancePath (refNotFound \<lparr>refId = i, sourcePath = dotPath f0 segs\<rparr>)
              = slashPath f0 segs)
     \<and> toInstancePath ''root'' = ''/''
     \<and> toInstancePath ''contact.gtsIid'' = ''/contact/gtsIid''
     \<and> toInstancePath ''gtsIid'' = ''/gtsIid''
     \<and> toInstancePath ''items[12].ref'' = ''/items/12/ref''"
proof -
  have v: "validation (heap (validateEntity env a r) ! a)
        = Some (integrityErrors r e @ phaseB env r e)"
    using assms by (rule validateEntity_validation)
  have i: "integrityErrors r e =
         map refNotFound
           (filter (\<lambda>ref. \<not> isInExamples (sourcePath ref)
                          \<and> \<not> mapHas (jsonSchemas r) (refId ref)
                          \<and> \<not> mapHas (jsonObjs r) (refId ref)) (gtsRefs e))"
    by (simp add: integrityErrors_def unresolvedRefs_def refExists_def)
  have c: "\<forall>ref. count_list (integrityErrors r e) (refNotFound ref) =
           (if \<not> isInExamples (sourcePath ref)
               \<and> \<not> mapHas (jsonSchemas r) (refId ref) \<and> \<not> mapHas (jsonObjs r) (refId ref)
            then count_list (gtsRefs e) ref else 0)"
    by (simp add: count_integrityErrors refExists_def)
  have f: "\<forall>ref. instancePath (refNotFound ref) =
              (if sourcePath ref = ''root'' then ''/''
               else CHR ''/'' # indicesToSlashes (dotsToSlashes (sourcePath ref)))
            \<and> keyword (refNotFound ref) = []
            \<and> message (refNotFound ref) = ''GTS reference not found: '' @ refId ref"
    by (simp add: refNotFound_def toInstancePath_def)
  have g: "\<forall>i f0 segs. plainName f0 \<longrightarrow> (\<forall>s \<in> set segs. plainSegment s) \<longrightarrow>
            dotPath f0 segs \<noteq> ''root'' \<longrightarrow>
            instancePath (refNotFound \<lparr>refId = i, sourcePath = dotPath f0 segs\<rparr>)
              = slashPath f0 segs"
    using toInstancePath_segments by (simp add: refNotFound_def)
  have p1: "toInstancePath ''root'' = ''/''" by (simp add: toInstancePath_def)
  have p2: "toInstancePath ''contact.gtsIid'' = ''/contact/gtsIid''" by code_simp
  have p3: "toInstancePath ''gtsIid'' = ''/gtsIid''" by code_simp
  have p4: "toInstancePath ''items[12].ref'' = ''/items/12/ref''" by code_simp
  from v i c f g p1 p2 p3 p4 show ?thesis by blast
qed

theorem unresolved_reference_errors_witness:
  "deref (heap fourRefsDemo) 0 \<noteq> None
   \<and> map refId (gtsRefs (heap fourRefsDemo ! 0)) = [''O1'', ''S2'', ''S3'', ''S4'']
   \<and> map (\<lambda>err. (instancePath err, keyword err, message err))
        (the (validation (heap (validateEntity sampleCollaborators 0 fourRefsDemo) ! 0)))
      = [(''/contact/gtsIid'', [], ''GTS reference not found: S2''),
         (''/'', [], ''GTS reference not found: S3'')]"
proof -
  obtain e where e: "deref (heap fourRefsDemo) 0 = Some e"
    and refs: "map refId (gtsRefs e) = [''O1'', ''S2'', ''S3'', ''S4'']"
    and ie: "map (\<lambda>err. (instancePath err, keyword err, message err)) (integrityErrors fourRefsDemo e)
      = [(''/contact/gtsIid'', [], ''GTS reference not found: S2''),
         (''/'', [], ''GTS reference not found: S3'')]"
    and pb: "phaseB sampleCollaborators fourRefsDemo e = []"
  proof
    show "deref (heap fourRefsDemo) 0 = Some (heap fourRefsDemo ! 0)" by code_simp
    show "map refId (gtsRefs (heap fourRefsDemo ! 0)) = [''O1'', ''S2'', ''S3'', ''S4'']"
      by code_simp
    show "map (\<lambda>err. (instancePath err, keyword err, message err))
        (integrityErrors fourRefsDemo (heap fourRefsDemo ! 0))
      = [(''/contact/gtsIid'', [], ''GTS reference not found: S2''),
         (''/'', [], ''GTS reference not found: S3'')]"
      by code_simp
    show "phaseB sampleCollaborators fourRefsDemo (heap fourRefsDemo ! 0) = []"
      by code_simp
  qed
  have e0: "e = heap fourRefsDemo ! 0" using e by (simp add: deref_def split: if_splits)
  have "validation (heap (validateEntity sampleCollaborators 0 fourRefsDemo) ! 0)
      = Some (integrityErrors fourRefsDemo e @ phaseB sampleCollaborators fourRefsDemo e)"
    using unresolved_reference_errors [OF e, of sampleCollaborators] by blast
  then show ?thesis using e refs ie pb e0 by simp
qed

subsection \<open>C5: references inside examples are exempt\<close>

text \<open>
  C5. Let \<open>ref\<close> be a reference of the entity \<open>e\<close> at address \<open>a\<close>; the integrity
  errors are the first part of the validation result that \<^verbatim>\<open>validateEntity\<close>
  attaches. If the source path of \<open>ref\<close> is \<^verbatim>\<open>examples\<close>, or starts with
  \<^verbatim>\<open>examples[\<close> or \<^verbatim>\<open>examples.\<close>, or contains \<^verbatim>\<open>allOf[i].examples\<close>,
  \<^verbatim>\<open>anyOf[i].examples\<close> or \<^verbatim>\<open>oneOf[i].examples\<close> (\<open>i\<close> one or more digits) followed by
  the end, a bracket or a dot -- such as \<^verbatim>\<open>examples[0].gtsIid\<close> and
  \<^verbatim>\<open>allOf[0].examples\<close> -- then \<open>ref\<close> has no integrity error, resolved or not. If
  the source path does not start with \<^verbatim>\<open>examples\<close> and nowhere contains
  \<^verbatim>\<open>].examples\<close> -- such as \<^verbatim>\<open>properties.examples.gtsIid\<close>, where \<open>examples\<close> is a
  property -- then \<open>ref\<close> is checked: when its id is in neither index, its
  integrity error is there, once for each occurrence of \<open>ref\<close>.
\<close>

theorem examples_paths_exempt:
  assumes "deref (heap r) a = Some e" and "ref \<in> set (gtsRefs e)"
  shows
    "validation (heap (validateEntity env a r) ! a)
        = Some (integrityErrors r e @ phaseB env r e)
     \<and> ((tail = [] \<or> hd tail = CHR ''['' \<or> hd tail = CHR ''.'') \<longrightarrow>
          sourcePath ref = ''examples'' @ tail \<longrightarrow>
          refNotFound ref \<notin> set (integrityErrors r e))
     \<and> ((tail = [] \<or> hd tail = CHR ''['' \<or> hd tail = CHR ''.'') \<longrightarrow>
          (kw = ''allOf'' \<or> kw = ''anyOf'' \<or> kw = ''oneOf'') \<longrightarrow>
          ds \<noteq> [] \<longrightarrow> (\<forall>c \<in> set ds. isDigit c) \<longrightarrow>
          sourcePath ref = pre @ kw @ ''['' @ ds @ ''].examples'' @ tail \<longrightarrow>
          refNotFound ref \<notin> set (integrityErrors r e))
     \<and> (sourcePath ref = ''examples[0].gtsIid'' \<or> sourcePath ref = ''allOf[0].examples'' \<longrightarrow>
          refNotFound ref \<notin> set (integrityErrors r e))
     \<and> (\<not> refExists r (refId ref) \<longrightarrow>
          \<not> startsWith (sourcePath ref) ''examples'' \<longrightarrow>
          (\<forall>u v. sourcePath ref \<noteq> u @ ''].examples'' @ v) \<longrightarrow>
          refNotFound ref \<in> set (integrityErrors r e)
          \<and> count_list (integrityErrors r e) (refNotFound ref) = count_list (gtsRefs e) ref)
     \<and> (\<not> refExists r (refId ref) \<longrightarrow>
          sourcePath ref = ''properties.examples.gtsIid'' \<longrightarrow>
          refNotFound ref \<in> set (integrityErrors r e))"
proof -
  have v: "validation (heap (validateEntity env a r) ! a)
        = Some (integrityErrors r e @ phaseB env r e)"
    using assms(1) by (rule validateEntity_validation)
  have exempt: "isInExamples (sourcePath ref) \<Longrightarrow> refNotFound ref \<notin> set (integrityErrors r e)"
    by (simp add: refNotFound_in_integrityErrors)
  have checked: "\<not> isInExamples (sourcePath ref) \<Longrightarrow> \<not> refExists r (refId ref) \<Longrightarrow>
      refNotFound ref \<in> set (integrityErrors r e)
      \<and> count_list (integrityErrors r e) (refNotFound ref) = count_list (gtsRefs e) ref"
    using assms(2) by (simp add: refNotFound_in_integrityErrors count_integrityErrors)
  have root: "(tail = [] \<or> hd tail = CHR ''['' \<or> hd tail = CHR ''.'') \<longrightarrow>
          sourcePath ref = ''examples'' @ tail \<longrightarrow>
          refNotFound ref \<notin> set (integrityErrors r e)"
  proof (intro impI)
    assume t: "tail = [] \<or> hd tail = CHR ''['' \<or> hd tail = CHR ''.''"
      and sp: "sourcePath ref = ''examples'' @ tail"
    show "refNotFound ref \<notin> set (integrityErrors r e)"
      by (rule exempt) (rule isInExamples_root [OF sp t])
  qed
  have comb: "(tail = [] \<or> hd tail = CHR ''['' \<or> hd tail = CHR ''.'') \<longrightarrow>
          (kw = ''allOf'' \<or> kw = ''anyOf'' \<or> kw = ''oneOf'') \<longrightarrow>
          ds \<noteq> [] \<longrightarrow> (\<forall>c \<in> set ds. isDigit c) \<longrightarrow>
          sourcePath ref = pre @ kw @ ''['' @ ds @ ''].examples'' @ tail \<longrightarrow>
          refNotFound ref \<notin> set (integrityErrors r e)"
  proof (intro impI)
    assume t: "tail = [] \<or> hd tail = CHR ''['' \<or> hd tail = CHR ''.''"
      and k: "kw = ''allOf'' \<or> kw = ''anyOf'' \<or> kw = ''oneOf''"
      and d: "ds \<noteq> []" "\<forall>c \<in> set ds. isDigit c"
      and sp: "sourcePath ref = pre @ kw @ ''['' @ ds @ ''].examples'' @ tail"
    show "refNotFound ref \<notin> set (integrityErrors r e)"
      by (rule exempt) (rule isInExamples_combinator [OF sp k d t])
  qed
  have ex1: "isInExamples ''examples[0].gtsIid''" by code_simp
  have ex2: "isInExamples ''allOf[0].examples''" by code_simp
  have named: "sourcePath ref = ''examples[0].gtsIid'' \<or> sourcePath ref = ''allOf[0].examples'' \<longrightarrow>
          refNotFound ref \<notin> set (integrityErrors r e)"
    using exempt ex1 ex2 by auto
  have general: "\<not> refExists r (refId ref) \<longrightarrow>
          \<not> startsWith (sourcePath ref) ''examples'' \<longrightarrow>
          (\<forall>u v. sourcePath ref \<noteq> u @ ''].examples'' @ v) \<longrightarrow>
          refNotFound ref \<in> set (integrityErrors r e)
          \<and> count_list (integrityErrors r e) (refNotFound ref) = count_list (gtsRefs e) ref"
    using checked not_isInExamples by blast
  have prp: "\<not> isInExamples ''properties.examples.gtsIid''" by code_simp
  have property: "\<not> refExists r (refId ref) \<longrightarrow>
          sourcePath ref = ''properties.examples.gtsIid'' \<longrightarrow>
          refNotFound ref \<in> set (integrityErrors r e)"
    using checked prp by auto
  from v root comb named general property show ?thesis by blast
qed

theorem examples_paths_exempt_witness:
  "deref (heap examplesDemo) 0 = Some (heap examplesDemo ! 0)
   \<and> gtsRefs (heap examplesDemo ! 0) =
       [\<lparr>refId = ''S4'', sourcePath = ''examples[0].gtsIid''\<rparr>,
        \<lparr>refId = ''S5'', sourcePath = ''allOf[0].examples''\<rparr>,
        \<lparr>refId = ''S6'', sourcePath = ''properties.examples.gtsIid''\<rparr>]
   \<and> \<not> refExists examplesDemo ''S4'' \<and> \<not> refExists examplesDemo ''S5''
   \<and> \<not> refExists examplesDemo ''S6''
   \<and> refNotFound \<lparr>refId = ''S4'', sourcePath = ''examples[0].gtsIid''\<rparr>
        \<notin> set (integrityErrors examplesDemo (heap examplesDemo ! 0))
   \<and> refNotFound \<lparr>refId = ''S5'', sourcePath = ''allOf[0].examples''\<rparr>
        \<notin> set (integrityErrors examplesDemo (heap examplesDemo ! 0))
   \<and> refNotFound \<lparr>refId = ''S6'', sourcePath = ''properties.examples.gtsIid''\<rparr>
        \<in> set (integrityErrors examplesDemo (heap examplesDemo ! 0))"
proof -
  let ?e = "heap examplesDemo ! 0"
  let ?r4 = "\<lparr>refId = ''S4'', sourcePath = ''examples[0].gtsIid''\<rparr>"
  let ?r5 = "\<lparr>refId = ''S5'', sourcePath = ''allOf[0].examples''\<rparr>"
  let ?r6 = "\<lparr>refId = ''S6'', sourcePath = ''properties.examples.gtsIid''\<rparr>"
  have d: "deref (heap examplesDemo) 0 = Some ?e" by code_simp
  have refs: "gtsRefs ?e = [?r4, ?r5, ?r6]" by code_simp
  have un: "\<not> refExists examplesDemo ''S4''" "\<not> refExists examplesDemo ''S5''"
    "\<not> refExists examplesDemo ''S6''"
    by code_simp+
  have m4: "?r4 \<in> set (gtsRefs ?e)" and m5: "?r5 \<in> set (gtsRefs ?e)"
    and m6: "?r6 \<in> set (gtsRefs ?e)"
    unfolding refs by simp_all
  have e4: "refNotFound ?r4 \<notin> set (integrityErrors examplesDemo ?e)"
    using examples_paths_exempt [OF d m4, of sampleCollaborators] by simp
  have e5: "refNotFound ?r5 \<notin> set (integrityErrors examplesDemo ?e)"
    using examples_paths_exempt [OF d m5, of sampleCollaborators] by simp
  have e6: "refNotFound ?r6 \<in> set (integrityErrors examplesDemo ?e)"
    using examples_paths_exempt [OF d m6, of sampleCollaborators] un(3) by simp
  from d refs un e4 e5 e6 show ?thesis by blast
qed

subsection \<open>C6: the vendor prefix in reference resolution\<close>

text \<open>
  C6 says that a vendor-prefixed id and its bare form resolve alike, in
  \<^verbatim>\<open>resolveSchema\<close> and in the existence check of Phase A. \<^verbatim>\<open>resolveSchema\<close> does
  strip the prefix: in the registry that holds the schema \<open>S1\<close>, \<^verbatim>\<open>gts://S1\<close> and
  \<open>S1\<close> resolve to the same schema, and the object whose schema id is
  \<^verbatim>\<open>gts://S1\<close> gets no error from Phase B. Phase A looks \<^verbatim>\<open>ref.id\<close> up as it is
  written: the bare reference to \<open>S1\<close> exists, the prefixed reference to the same
  schema does not, and validating the object reports
  \<^verbatim>\<open>GTS reference not found: gts://S1\<close> and files a placeholder under that key.
\<close>

theorem prefixed_gtsRef_reported_missing:
  "resolveSchema prefixDemo ''gts://S1'' = resolveSchema prefixDemo ''S1''
   \<and> map_option entId (resolveSchema prefixDemo ''S1'') = Some ''S1''
   \<and> gtsRefs (heap prefixDemo ! 1) =
        [\<lparr>refId = ''S1'', sourcePath = ''bare''\<rparr>, \<lparr>refId = ''gts://S1'', sourcePath = ''full''\<rparr>]
   \<and> schemaId (heap prefixDemo ! 1) = Some ''gts://S1''
   \<and> refExists prefixDemo ''S1''
   \<and> \<not> refExists prefixDemo ''gts://S1''
   \<and> phaseB sampleCollaborators prefixDemo (heap prefixDemo ! 1) = []
   \<and> map (\<lambda>err. (instancePath err, message err))
        (the (validation (heap (validateEntity sampleCollaborators 1 prefixDemo) ! 1)))
       = [(''/full'', ''GTS reference not found: gts://S1'')]
   \<and> map fst (absentGtsEntities (validateEntity sampleCollaborators 1 prefixDemo))
       = [''gts://S1'']"
  by code_simp

subsection \<open>C7: \<^verbatim>\<open>reset()\<close>\<close>

text \<open>
  C7 says that after \<^verbatim>\<open>reset()\<close> every index is empty, the placeholder map
  \<^verbatim>\<open>absentGtsEntities\<close> included, and the default-file pointer is cleared. The
  source clears seven maps and the pointer and leaves \<^verbatim>\<open>absentGtsEntities\<close> as it
  was: for every registry the placeholder map after \<^verbatim>\<open>reset()\<close> is the one before,
  while the other indices are empty; in the registry that validated an object with
  a dangling reference to \<open>S2\<close>, the placeholder for \<open>S2\<close> is still there after
  \<^verbatim>\<open>reset()\<close>.
\<close>

theorem reset_leaves_absentGtsEntities:
  "(\<forall>r. absentGtsEntities (reset r) = absentGtsEntities r
        \<and> jsonObjs (reset r) = [] \<and> jsonSchemas (reset r) = []
        \<and> jsonFiles (reset r) = [] \<and> invalidFiles (reset r) = []
        \<and> jsonFileObjs (reset r) = [] \<and> jsonFileSchemas (reset r) = []
        \<and> fetchCache (reset r) = [] \<and> defaultFilePath (reset r) = None)
   \<and> map fst (absentGtsEntities danglingDemo) = [''S2'']
   \<and> map fst (absentGtsEntities (reset danglingDemo)) = [''S2'']"
proof -
  have general: "\<forall>r. absentGtsEntities (reset r) = absentGtsEntities r
        \<and> jsonObjs (reset r) = [] \<and> jsonSchemas (reset r) = []
        \<and> jsonFiles (reset r) = [] \<and> invalidFiles (reset r) = []
        \<and> jsonFileObjs (reset r) = [] \<and> jsonFileSchemas (reset r) = []
        \<and> fetchCache (reset r) = [] \<and> defaultFilePath (reset r) = None"
    by (simp add: reset_def)
  have before: "map fst (absentGtsEntities danglingDemo) = [''S2'']"
    by code_simp
  have after: "map fst (absentGtsEntities (reset danglingDemo)) = [''S2'']"
    using general before by simp
  from general before after show ?thesis by blast
qed

subsection \<open>C8: how a file is classified\<close>

text \<open>
  C8. Let \<open>r'\<close> be the registry after \<^verbatim>\<open>processFileContent\<close> for the path \<open>p\<close>,
  \<open>jf\<close> the file object built from the arguments and \<open>es\<close> the recognized entities
  of the content. Then \<open>p\<close> is a key of \<^verbatim>\<open>jsonFiles\<close> iff the content parsed and
  \<open>es\<close> is not empty, and \<open>p\<close> is a key of \<^verbatim>\<open>invalidFiles\<close> iff the content
  failed to parse.

  If it failed to parse, \<^verbatim>\<open>invalidFiles\<close> holds \<open>jf\<close> under \<open>p\<close>, no object is
  created, both ownership lists of \<open>p\<close> are empty, and the two indices
  \<^verbatim>\<open>jsonObjs\<close> and \<^verbatim>\<open>jsonSchemas\<close> are the earlier ones without the ids that the
  ownership lists of \<open>p\<close> held before: nothing is added to them and nothing that
  \<open>p\<close> registered earlier stays.

  If it parsed, the created objects are \<open>es\<close> and the ownership lists of \<open>p\<close> hold
  exactly the objects and the schemas of \<open>es\<close>. Every object of \<open>es\<close> is found in
  \<^verbatim>\<open>jsonObjs\<close> under its id, at a newly created object of that id and class, and
  every schema of \<open>es\<close> in \<^verbatim>\<open>jsonSchemas\<close> likewise; under every other id the two
  indices hold what they held before, except for the ids that the ownership lists of
  \<open>p\<close> held before, which are gone. With \<open>es\<close> empty, \<open>p\<close> is in neither
  \<^verbatim>\<open>jsonFiles\<close> nor \<^verbatim>\<open>invalidFiles\<close>.

  \<^verbatim>\<open>ingestFiles\<close> of this one file, at a path outside the viewer directory, leaves
  the same file maps, indices and ownership lists.
\<close>

theorem file_classification:
  assumes "jf = newJsonFile env p n c"
    and "es = recognizedEntities env jf cfg (isArray c) (normalizeToArray c) 0"
    and "r' = processFileContent env p n c cfg r"
  shows
    "(mapHas (jsonFiles r') p \<longleftrightarrow> \<not> hasParseErrors jf \<and> es \<noteq> [])
     \<and> (mapHas (invalidFiles r') p \<longleftrightarrow> hasParseErrors jf)
     \<and> (hasParseErrors jf \<longrightarrow>
          mapGet (invalidFiles r') p = Some jf \<and> heap r' = heap r
          \<and> orEmpty (mapGet (jsonFileObjs r') p) = []
          \<and> orEmpty (mapGet (jsonFileSchemas r') p) = []
          \<and> jsonObjs r' =
              filter (\<lambda>kv. fst kv \<notin> set (entityIds (heap r) (orEmpty (mapGet (jsonFileObjs r) p))))
                (jsonObjs r)
          \<and> jsonSchemas r' =
              filter (\<lambda>kv. fst kv \<notin> set (entityIds (heap r) (orEmpty (mapGet (jsonFileSchemas r) p))))
                (jsonSchemas r))
     \<and> (\<not> hasParseErrors jf \<longrightarrow>
          heap r' = heap r @ es
          \<and> map (\<lambda>a. heap r' ! a) (orEmpty (mapGet (jsonFileObjs r') p))
              = filter (\<lambda>e. entClass e = JsonObj) es
          \<and> map (\<lambda>a. heap r' ! a) (orEmpty (mapGet (jsonFileSchemas r') p))
              = filter (\<lambda>e. entClass e = JsonSchema) es
          \<and> (\<forall>e \<in> set es. entClass e = JsonObj \<longrightarrow>
                (\<exists>a. mapGet (jsonObjs r') (entId e) = Some a
                   \<and> length (heap r) \<le> a \<and> a < length (heap r')
                   \<and> entId (heap r' ! a) = entId e \<and> entClass (heap r' ! a) = JsonObj))
          \<and> (\<forall>e \<in> set es. entClass e = JsonSchema \<longrightarrow>
                (\<exists>a. mapGet (jsonSchemas r') (entId e) = Some a
                   \<and> length (heap r) \<le> a \<and> a < length (heap r')
                   \<and> entId (heap r' ! a) = entId e \<and> entClass (heap r' ! a) = JsonSchema))
          \<and> (\<forall>k. k \<notin> entId ` {e \<in> set es. entClass e = JsonObj} \<longrightarrow>
                mapGet (jsonObjs r') k =
                  (if k \<in> set (entityIds (heap r) (orEmpty (mapGet (jsonFileObjs r) p))) then None
                   else mapGet (jsonObjs r) k))
          \<and> (\<forall>k. k \<notin> entId ` {e \<in> set es. entClass e = JsonSchema} \<longrightarrow>
                mapGet (jsonSchemas r') k =
                  (if k \<in> set (entityIds (heap r) (orEmpty (mapGet (jsonFileSchemas r) p))) then None
                   else mapGet (jsonSchemas r) k))
          \<and> (es \<noteq> [] \<longrightarrow> mapGet (jsonFiles r') p = Some jf)
          \<and> (es = [] \<longrightarrow> \<not> mapHas (jsonFiles r') p \<and> \<not> mapHas (invalidFiles r') p))
     \<and> (\<not> inViewerDir p \<longrightarrow> cfg = getGtsConfig env cfg0 \<longrightarrow>
          jsonFiles (ingestFiles env [\<lparr>inPath = p, inName = n, inContent = c\<rparr>] cfg0 r)
            = jsonFiles r'
          \<and> invalidFiles (ingestFiles env [\<lparr>inPath = p, inName = n, inContent = c\<rparr>] cfg0 r)
            = invalidFiles r'
          \<and> jsonObjs (ingestFiles env [\<lparr>inPath = p, inName = n, inContent = c\<rparr>] cfg0 r)
            = jsonObjs r'
          \<and> jsonSchemas (ingestFiles env [\<lparr>inPath = p, inName = n, inContent = c\<rparr>] cfg0 r)
            = jsonSchemas r'
          \<and> jsonFileObjs (ingestFiles env [\<lparr>inPath = p, inName = n, inContent = c\<rparr>] cfg0 r)
            = jsonFileObjs r'
          \<and> jsonFileSchemas (ingestFiles env [\<lparr>inPath = p, inName = n, inContent = c\<rparr>] cfg0 r)
            = jsonFileSchemas r')"
proof -
  let ?i = "invalidateFile p r"
  let ?oldObjs = "entityIds (heap r) (orEmpty (mapGet (jsonFileObjs r) p))"
  let ?oldSchemas = "entityIds (heap r) (orEmpty (mapGet (jsonFileSchemas r) p))"
  let ?in = "ingestFiles env [\<lparr>inPath = p, inName = n, inContent = c\<rparr>] cfg0 r"
  have nf: "\<not> mapHas (jsonFiles ?i) p" and ni: "\<not> mapHas (invalidFiles ?i) p"
    by (simp_all add: invalidateFile_jsonFiles invalidateFile_invalidFiles mapHas_mapDelete)
  have bad: "hasParseErrors jf \<Longrightarrow>
      r' = ?i\<lparr>invalidFiles := mapSet (invalidFiles ?i) p jf\<rparr>"
    unfolding assms(1,3) by (rule processFileContent_invalid)
  have good: "\<not> hasParseErrors jf \<Longrightarrow>
      r' = (if es \<noteq> [] then (registerAll p es ?i)\<lparr>jsonFiles := mapSet (jsonFiles ?i) p jf\<rparr>
            else registerAll p es ?i)"
    unfolding assms(1,2,3) by (simp add: processFileContent_valid Let_def)
  have files: "mapHas (jsonFiles r') p \<longleftrightarrow> \<not> hasParseErrors jf \<and> es \<noteq> []"
  proof (cases "hasParseErrors jf")
    case True
    then show ?thesis using bad nf by simp
  next
    case False
    then show ?thesis using good nf by (simp add: mapHas_mapSet)
  qed
  have inval: "mapHas (invalidFiles r') p \<longleftrightarrow> hasParseErrors jf"
  proof (cases "hasParseErrors jf")
    case True
    then show ?thesis using bad by (simp add: mapHas_mapSet)
  next
    case False
    then show ?thesis using good ni by simp
  qed
  have badcase: "hasParseErrors jf \<longrightarrow>
          mapGet (invalidFiles r') p = Some jf \<and> heap r' = heap r
          \<and> orEmpty (mapGet (jsonFileObjs r') p) = []
          \<and> orEmpty (mapGet (jsonFileSchemas r') p) = []
          \<and> jsonObjs r' = filter (\<lambda>kv. fst kv \<notin> set ?oldObjs) (jsonObjs r)
          \<and> jsonSchemas r' = filter (\<lambda>kv. fst kv \<notin> set ?oldSchemas) (jsonSchemas r)"
  proof
    assume b: "hasParseErrors jf"
    have b1: "mapGet (invalidFiles r') p = Some jf \<and> heap r' = heap r
          \<and> orEmpty (mapGet (jsonFileObjs r') p) = []
          \<and> orEmpty (mapGet (jsonFileSchemas r') p) = []"
      unfolding bad [OF b] by (simp add: mapGet_mapSet invalidateFile_own_lists)
    have b2: "jsonObjs r' = filter (\<lambda>kv. fst kv \<notin> set ?oldObjs) (jsonObjs r)"
      unfolding bad [OF b] by (simp add: invalidateFile_jsonObjs)
    have b3: "jsonSchemas r' = filter (\<lambda>kv. fst kv \<notin> set ?oldSchemas) (jsonSchemas r)"
      unfolding bad [OF b] by (simp add: invalidateFile_jsonSchemas)
    from b1 b2 b3 show "mapGet (invalidFiles r') p = Some jf \<and> heap r' = heap r
          \<and> orEmpty (mapGet (jsonFileObjs r') p) = []
          \<and> orEmpty (mapGet (jsonFileSchemas r') p) = []
          \<and> jsonObjs r' = filter (\<lambda>kv. fst kv \<notin> set ?oldObjs) (jsonObjs r)
          \<and> jsonSchemas r' = filter (\<lambda>kv. fst kv \<notin> set ?oldSchemas) (jsonSchemas r)"
      by blast
  qed
  have goodcase: "\<not> hasParseErrors jf \<longrightarrow>
          heap r' = heap r @ es
          \<and> map (\<lambda>a. heap r' ! a) (orEmpty (mapGet (jsonFileObjs r') p))
              = filter (\<lambda>e. entClass e = JsonObj) es
          \<and> map (\<lambda>a. heap r' ! a) (orEmpty (mapGet (jsonFileSchemas r') p))
              = filter (\<lambda>e. entClass e = JsonSchema) es
          \<and> (\<forall>e \<in> set es. entClass e = JsonObj \<longrightarrow>
                (\<exists>a. mapGet (jsonObjs r') (entId e) = Some a
                   \<and> length (heap r) \<le> a \<and> a < length (heap r')
                   \<and> entId (heap r' ! a) = entId e \<and> entClass (heap r' ! a) = JsonObj))
          \<and> (\<forall>e \<in> set es. entClass e = JsonSchema \<longrightarrow>
                (\<exists>a. mapGet (jsonSchemas r') (entId e) = Some a
                   \<and> length (heap r) \<le> a \<and> a < length (heap r')
                   \<and> entId (heap r' ! a) = entId e \<and> entClass (heap r' ! a) = JsonSchema))
          \<and> (\<forall>k. k \<notin> entId ` {e \<in> set es. entClass e = JsonObj} \<longrightarrow>
                mapGet (jsonObjs r') k =
                  (if k \<in> set ?oldObjs then None else mapGet (jsonObjs r) k))
          \<and> (\<forall>k. k \<notin> entId ` {e \<in> set es. entClass e = JsonSchema} \<longrightarrow>
                mapGet (jsonSchemas r') k =
                  (if k \<in> set ?oldSchemas then None else mapGet (jsonSchemas r) k))
          \<and> (es \<noteq> [] \<longrightarrow> mapGet (jsonFiles r') p = Some jf)
          \<and> (es = [] \<longrightarrow> \<not> mapHas (jsonFiles r') p \<and> \<not> mapHas (invalidFiles r') p)"
  proof
    assume g: "\<not> hasParseErrors jf"
    have h: "heap r' = heap r @ es" using good [OF g] by simp
    have fe: "fileEntities env p n c cfg = es"
      using g unfolding assms(1,2) by (rule fileEntities_parsed)
    have fo: "orEmpty (mapGet (jsonFileObjs r') p) = newAddrs JsonObj (length (heap r)) es"
      using good [OF g] registerAll_fileObjs [of p es ?i]
      by (simp add: invalidateFile_own_lists)
    have fs: "orEmpty (mapGet (jsonFileSchemas r') p) = newAddrs JsonSchema (length (heap r)) es"
      using good [OF g] registerAll_fileSchemas [of p es ?i]
      by (simp add: invalidateFile_own_lists)
    have g1: "map (\<lambda>a. heap r' ! a) (orEmpty (mapGet (jsonFileObjs r') p))
              = filter (\<lambda>e. entClass e = JsonObj) es"
      unfolding h fo by (simp add: nth_newAddrs)
    have g2: "map (\<lambda>a. heap r' ! a) (orEmpty (mapGet (jsonFileSchemas r') p))
              = filter (\<lambda>e. entClass e = JsonSchema) es"
      unfolding h fs by (simp add: nth_newAddrs)
    have lo: "mapGet (jsonObjs r') k =
        (case regLookup JsonObj (length (heap r)) es k of
           Some a \<Rightarrow> Some a
         | None \<Rightarrow> if k \<in> set ?oldObjs then None else mapGet (jsonObjs r) k)" for k
      using processFileContent_objs [of env p n c cfg r k] unfolding fe assms(3) .
    have ls: "mapGet (jsonSchemas r') k =
        (case regLookup JsonSchema (length (heap r)) es k of
           Some a \<Rightarrow> Some a
         | None \<Rightarrow> if k \<in> set ?oldSchemas then None else mapGet (jsonSchemas r) k)" for k
      using processFileContent_schemas [of env p n c cfg r k] unfolding fe assms(3) .
    have g3: "\<forall>e \<in> set es. entClass e = JsonObj \<longrightarrow>
                (\<exists>a. mapGet (jsonObjs r') (entId e) = Some a
                   \<and> length (heap r) \<le> a \<and> a < length (heap r')
                   \<and> entId (heap r' ! a) = entId e \<and> entClass (heap r' ! a) = JsonObj)"
    proof (intro ballI impI)
      fix e assume e: "e \<in> set es" and cl: "entClass e = JsonObj"
      obtain a where a: "regLookup JsonObj (length (heap r)) es (entId e) = Some a"
        and rest: "length (heap r) \<le> a \<and> a < length (heap r @ es)
           \<and> entId ((heap r @ es) ! a) = entId e \<and> entClass ((heap r @ es) ! a) = JsonObj"
        using regLookup_member [OF e cl, of "heap r"] by blast
      have "mapGet (jsonObjs r') (entId e) = Some a" using lo [of "entId e"] a by simp
      then show "\<exists>a. mapGet (jsonObjs r') (entId e) = Some a
                   \<and> length (heap r) \<le> a \<and> a < length (heap r')
                   \<and> entId (heap r' ! a) = entId e \<and> entClass (heap r' ! a) = JsonObj"
        using rest unfolding h by blast
    qed
    have g4: "\<forall>e \<in> set es. entClass e = JsonSchema \<longrightarrow>
                (\<exists>a. mapGet (jsonSchemas r') (entId e) = Some a
                   \<and> length (heap r) \<le> a \<and> a < length (heap r')
                   \<and> entId (heap r' ! a) = entId e \<and> entClass (heap r' ! a) = JsonSchema)"
    proof (intro ballI impI)
      fix e assume e: "e \<in> set es" and cl: "entClass e = JsonSchema"
      obtain a where a: "regLookup JsonSchema (length (heap r)) es (entId e) = Some a"
        and rest: "length (heap r) \<le> a \<and> a < length (heap r @ es)
           \<and> entId ((heap r @ es) ! a) = entId e \<and> entClass ((heap r @ es) ! a) = JsonSchema"
        using regLookup_member [OF e cl, of "heap r"] by blast
      have "mapGet (jsonSchemas r') (entId e) = Some a" using ls [of "entId e"] a by simp
      then show "\<exists>a. mapGet (jsonSchemas r') (entId e) = Some a
                   \<and> length (heap r) \<le> a \<and> a < length (heap r')
                   \<and> entId (heap r' ! a) = entId e \<and> entClass (heap r' ! a) = JsonSchema"
        using rest unfolding h by blast
    qed
    have g5: "\<forall>k. k \<notin> entId ` {e \<in> set es. entClass e = JsonObj} \<longrightarrow>
                mapGet (jsonObjs r') k =
                  (if k \<in> set ?oldObjs then None else mapGet (jsonObjs r) k)"
    proof (intro allI impI)
      fix k assume "k \<notin> entId ` {e \<in> set es. entClass e = JsonObj}"
      then have "regLookup JsonObj (length (heap r)) es k = None"
        by (simp add: regLookup_None idsOf_def)
      then show "mapGet (jsonObjs r') k =
                  (if k \<in> set ?oldObjs then None else mapGet (jsonObjs r) k)"
        using lo [of k] by simp
    qed
    have g6: "\<forall>k. k \<notin> entId ` {e \<in> set es. entClass e = JsonSchema} \<longrightarrow>
                mapGet (jsonSchemas r') k =
                  (if k \<in> set ?oldSchemas then None else mapGet (jsonSchemas r) k)"
    proof (intro allI impI)
      fix k assume "k \<notin> entId ` {e \<in> set es. entClass e = JsonSchema}"
      then have "regLookup JsonSchema (length (heap r)) es k = None"
        by (simp add: regLookup_None idsOf_def)
      then show "mapGet (jsonSchemas r') k =
                  (if k \<in> set ?oldSchemas then None else mapGet (jsonSchemas r) k)"
        using ls [of k] by simp
    qed
    have tracked: "es \<noteq> [] \<longrightarrow> mapGet (jsonFiles r') p = Some jf"
      using good [OF g] by (simp add: mapGet_mapSet)
    have none: "es = [] \<longrightarrow> \<not> mapHas (jsonFiles r') p \<and> \<not> mapHas (invalidFiles r') p"
      using files inval g by simp
    from h g1 g2 g3 g4 g5 g6 tracked none
    show "heap r' = heap r @ es
          \<and> map (\<lambda>a. heap r' ! a) (orEmpty (mapGet (jsonFileObjs r') p))
              = filter (\<lambda>e. entClass e = JsonObj) es
          \<and> map (\<lambda>a. heap r' ! a) (orEmpty (mapGet (jsonFileSchemas r') p))
              = filter (\<lambda>e. entClass e = JsonSchema) es
          \<and> (\<forall>e \<in> set es. entClass e = JsonObj \<longrightarrow>
                (\<exists>a. mapGet (jsonObjs r') (entId e) = Some a
                   \<and> length (heap r) \<le> a \<and> a < length (heap r')
                   \<and> entId (heap r' ! a) = entId e \<and> entClass (heap r' ! a) = JsonObj))
          \<and> (\<forall>e \<in> set es. entClass e = JsonSchema \<longrightarrow>
                (\<exists>a. mapGet (jsonSchemas r') (entId e) = Some a
                   \<and> length (heap r) \<le> a \<and> a < length (heap r')
                   \<and> entId (heap r' ! a) = entId e \<and> entClass (heap r' ! a) = JsonSchema))
          \<and> (\<forall>k. k \<notin> entId ` {e \<in> set es. entClass e = JsonObj} \<longrightarrow>
                mapGet (jsonObjs r') k =
                  (if k \<in> set ?oldObjs then None else mapGet (jsonObjs r) k))
          \<and> (\<forall>k. k \<notin> entId ` {e \<in> set es. entClass e = JsonSchema} \<longrightarrow>
                mapGet (jsonSchemas r') k =
                  (if k \<in> set ?oldSchemas then None else mapGet (jsonSchemas r) k))
          \<and> (es \<noteq> [] \<longrightarrow> mapGet (jsonFiles r') p = Some jf)
          \<and> (es = [] \<longrightarrow> \<not> mapHas (jsonFiles r') p \<and> \<not> mapHas (invalidFiles r') p)"
      by (intro conjI)
  qed
  have ingest: "\<not> inViewerDir p \<longrightarrow> cfg = getGtsConfig env cfg0 \<longrightarrow>
          jsonFiles ?in = jsonFiles r'
          \<and> invalidFiles ?in = invalidFiles r'
          \<and> jsonObjs ?in = jsonObjs r'
          \<and> jsonSchemas ?in = jsonSchemas r'
          \<and> jsonFileObjs ?in = jsonFileObjs r'
          \<and> jsonFileSchemas ?in = jsonFileSchemas r'"
  proof (intro impI)
    assume v: "\<not> inViewerDir p" and c: "cfg = getGtsConfig env cfg0"
    have "?in = validateEntities env r'"
      unfolding ingestFiles_def assms(3) c by (simp add: v)
    then show "jsonFiles ?in = jsonFiles r'
          \<and> invalidFiles ?in = invalidFiles r'
          \<and> jsonObjs ?in = jsonObjs r'
          \<and> jsonSchemas ?in = jsonSchemas r'
          \<and> jsonFileObjs ?in = jsonFileObjs r'
          \<and> jsonFileSchemas ?in = jsonFileSchemas r'"
      using validateEntities_maps [of env r'] by simp
  qed
  from files inval badcase goodcase ingest show ?thesis by (intro conjI)
qed

text \<open>Three files processed after \<^verbatim>\<open>a.json\<close> is tracked with its object \<open>X\<close>: a
  second version of \<^verbatim>\<open>a.json\<close> with an object \<open>X\<close>, which is then found in the index
  at a new object; a version that fails to parse, after which the index is empty; and
  a version that parses and holds nothing recognized.\<close>

theorem file_classification_witness:
  "mapHas (jsonFiles (processFileContent sampleCollaborators ''a.json'' ''a.json''
       (objDoc ''X'' [] []) () oneFileDemo)) ''a.json''
   \<and> \<not> mapHas (invalidFiles (processFileContent sampleCollaborators ''a.json'' ''a.json''
       (objDoc ''X'' [] []) () oneFileDemo)) ''a.json''
   \<and> (\<exists>a. mapGet (jsonObjs (processFileContent sampleCollaborators ''a.json'' ''a.json''
       (objDoc ''X'' [] []) () oneFileDemo)) ''X'' = Some a \<and> length (heap oneFileDemo) \<le> a)
   \<and> hasParseErrors (newJsonFile sampleCollaborators ''a.json'' ''a.json'' JNull)
   \<and> mapHas (invalidFiles (processFileContent sampleCollaborators ''a.json'' ''a.json''
       JNull () oneFileDemo)) ''a.json''
   \<and> \<not> mapHas (jsonFiles (processFileContent sampleCollaborators ''a.json'' ''a.json''
       JNull () oneFileDemo)) ''a.json''
   \<and> orEmpty (mapGet (jsonFileObjs (processFileContent sampleCollaborators ''a.json'' ''a.json''
       JNull () oneFileDemo)) ''a.json'') = []
   \<and> mapHas (jsonObjs oneFileDemo) ''X''
   \<and> jsonObjs (processFileContent sampleCollaborators ''a.json'' ''a.json''
       JNull () oneFileDemo) = []
   \<and> jsonSchemas (processFileContent sampleCollaborators ''a.json'' ''a.json''
       JNull () oneFileDemo) = []
   \<and> \<not> mapHas (jsonFiles (processFileContent sampleCollaborators ''a.json'' ''a.json''
       (JObj []) () oneFileDemo)) ''a.json''
   \<and> \<not> mapHas (invalidFiles (processFileContent sampleCollaborators ''a.json'' ''a.json''
       (JObj []) () oneFileDemo)) ''a.json''"
proof -
  let ?es1 = "recognizedEntities sampleCollaborators
      (newJsonFile sampleCollaborators ''a.json'' ''a.json'' (objDoc ''X'' [] [])) ()
      (isArray (objDoc ''X'' [] [])) (normalizeToArray (objDoc ''X'' [] [])) 0"
  have p1: "\<not> hasParseErrors (newJsonFile sampleCollaborators ''a.json'' ''a.json'' (objDoc ''X'' [] []))"
    by code_simp
  have e1: "?es1 \<noteq> []"
    by code_simp
  have m1: "hd ?es1 \<in> set ?es1" using e1 by (rule hd_in_set)
  have c1: "entClass (hd ?es1) = JsonObj" by code_simp
  have i1: "entId (hd ?es1) = ''X''" by code_simp
  have p2: "hasParseErrors (newJsonFile sampleCollaborators ''a.json'' ''a.json'' JNull)"
    by code_simp
  have o2: "filter (\<lambda>kv. fst kv \<notin> set (entityIds (heap oneFileDemo)
                (orEmpty (mapGet (jsonFileObjs oneFileDemo) ''a.json'')))) (jsonObjs oneFileDemo) = []"
    by code_simp
  have s2: "filter (\<lambda>kv. fst kv \<notin> set (entityIds (heap oneFileDemo)
                (orEmpty (mapGet (jsonFileSchemas oneFileDemo) ''a.json'')))) (jsonSchemas oneFileDemo) = []"
    by code_simp
  have x: "mapHas (jsonObjs oneFileDemo) ''X''"
    by code_simp
  have p3: "\<not> hasParseErrors (newJsonFile sampleCollaborators ''a.json'' ''a.json'' (JObj []))"
    by code_simp
  have e3: "recognizedEntities sampleCollaborators
      (newJsonFile sampleCollaborators ''a.json'' ''a.json'' (JObj [])) ()
      (isArray (JObj [])) (normalizeToArray (JObj [])) 0 = []"
    by code_simp
  note t1 = file_classification [OF refl refl refl, of sampleCollaborators "''a.json''" "''a.json''"
      "objDoc ''X'' [] []" "()" oneFileDemo "()"]
  note t2 = file_classification [OF refl refl refl, of sampleCollaborators "''a.json''" "''a.json''"
      JNull "()" oneFileDemo "()"]
  note t3 = file_classification [OF refl refl refl, of sampleCollaborators "''a.json''" "''a.json''"
      "JObj []" "()" oneFileDemo "()"]
  have a: "mapHas (jsonFiles (processFileContent sampleCollaborators ''a.json'' ''a.json''
       (objDoc ''X'' [] []) () oneFileDemo)) ''a.json''
     \<and> \<not> mapHas (invalidFiles (processFileContent sampleCollaborators ''a.json'' ''a.json''
       (objDoc ''X'' [] []) () oneFileDemo)) ''a.json''"
    using t1 p1 e1 by blast
  have a0: "\<forall>e \<in> set ?es1. entClass e = JsonObj \<longrightarrow>
      (\<exists>a. mapGet (jsonObjs (processFileContent sampleCollaborators ''a.json'' ''a.json''
              (objDoc ''X'' [] []) () oneFileDemo)) (entId e) = Some a
         \<and> length (heap oneFileDemo) \<le> a)"
    using t1 p1 by blast
  have a': "\<exists>a. mapGet (jsonObjs (processFileContent sampleCollaborators ''a.json'' ''a.json''
       (objDoc ''X'' [] []) () oneFileDemo)) ''X'' = Some a \<and> length (heap oneFileDemo) \<le> a"
    using a0 [rule_format, OF m1 c1] unfolding i1 .
  have b: "mapHas (invalidFiles (processFileContent sampleCollaborators ''a.json'' ''a.json''
       JNull () oneFileDemo)) ''a.json''
     \<and> \<not> mapHas (jsonFiles (processFileContent sampleCollaborators ''a.json'' ''a.json''
       JNull () oneFileDemo)) ''a.json''
     \<and> orEmpty (mapGet (jsonFileObjs (processFileContent sampleCollaborators ''a.json'' ''a.json''
       JNull () oneFileDemo)) ''a.json'') = []"
    using t2 p2 by blast
  have b1: "jsonObjs (processFileContent sampleCollaborators ''a.json'' ''a.json''
       JNull () oneFileDemo) = filter (\<lambda>kv. fst kv \<notin> set (entityIds (heap oneFileDemo)
                (orEmpty (mapGet (jsonFileObjs oneFileDemo) ''a.json'')))) (jsonObjs oneFileDemo)"
    using t2 p2 by blast
  have b2: "jsonSchemas (processFileContent sampleCollaborators ''a.json'' ''a.json''
       JNull () oneFileDemo) = filter (\<lambda>kv. fst kv \<notin> set (entityIds (heap oneFileDemo)
                (orEmpty (mapGet (jsonFileSchemas oneFileDemo) ''a.json'')))) (jsonSchemas oneFileDemo)"
    using t2 p2 by blast
  have c: "\<not> mapHas (jsonFiles (processFileContent sampleCollaborators ''a.json'' ''a.json''
       (JObj []) () oneFileDemo)) ''a.json''
     \<and> \<not> mapHas (invalidFiles (processFileContent sampleCollaborators ''a.json'' ''a.json''
       (JObj []) () oneFileDemo)) ''a.json''"
    using t3 p3 e3 by blast
  from a a' p2 b x b1 [unfolded o2] b2 [unfolded s2] c show ?thesis by (intro conjI) blast+
qed

subsection \<open>C9: validation changes nothing but validation results\<close>

text \<open>
  C9. A validation pass never creates or deletes entities. Running
  \<^verbatim>\<open>validateEntities\<close>, or \<^verbatim>\<open>validateEntity\<close> on any object, leaves
  \<^verbatim>\<open>jsonSchemas\<close>, \<^verbatim>\<open>jsonObjs\<close>, \<^verbatim>\<open>jsonFiles\<close>, \<^verbatim>\<open>invalidFiles\<close>,
  \<^verbatim>\<open>jsonFileObjs\<close> and \<^verbatim>\<open>jsonFileSchemas\<close> exactly as they were, keys, entries and
  order. The object store keeps its size, and every object in it is the object it
  was before up to its \<^verbatim>\<open>validation\<close> field: the only mutation of an entity is
  the attached or replaced validation result.
\<close>

theorem validation_frame:
  "jsonSchemas (validateEntities env r) = jsonSchemas r
   \<and> jsonObjs (validateEntities env r) = jsonObjs r
   \<and> jsonFiles (validateEntities env r) = jsonFiles r
   \<and> invalidFiles (validateEntities env r) = invalidFiles r
   \<and> jsonFileObjs (validateEntities env r) = jsonFileObjs r
   \<and> jsonFileSchemas (validateEntities env r) = jsonFileSchemas r
   \<and> length (heap (validateEntities env r)) = length (heap r)
   \<and> map stripValidation (heap (validateEntities env r)) = map stripValidation (heap r)
   \<and> jsonSchemas (validateEntity env a r) = jsonSchemas r
   \<and> jsonObjs (validateEntity env a r) = jsonObjs r
   \<and> jsonFiles (validateEntity env a r) = jsonFiles r
   \<and> invalidFiles (validateEntity env a r) = invalidFiles r
   \<and> jsonFileObjs (validateEntity env a r) = jsonFileObjs r
   \<and> jsonFileSchemas (validateEntity env a r) = jsonFileSchemas r
   \<and> length (heap (validateEntity env a r)) = length (heap r)
   \<and> map stripValidation (heap (validateEntity env a r)) = map stripValidation (heap r)"
proof -
  have all: "map stripValidation (heap (validateEntities env r)) = map stripValidation (heap r)"
    by (rule validateEntities_strip)
  then have "length (map stripValidation (heap (validateEntities env r)))
      = length (map stripValidation (heap r))"
    by simp
  then have len: "length (heap (validateEntities env r)) = length (heap r)"
    by simp
  have one: "map stripValidation (heap (validateEntity env a r)) = map stripValidation (heap r)"
    by (rule validateEntity_strip)
  show ?thesis
    using validateEntities_maps [of env r] all len one by simp
qed

theorem validation_frame_witness:
  "jsonObjs danglingDemo = [(''O1'', 0)]
   \<and> jsonObjs (validateEntities sampleCollaborators danglingDemo) = [(''O1'', 0)]
   \<and> jsonFileObjs (validateEntities sampleCollaborators danglingDemo) = [(''o.json'', [0])]
   \<and> length (heap (validateEntities sampleCollaborators danglingDemo)) = 1"
proof -
  have objs: "jsonObjs danglingDemo = [(''O1'', 0)]" by code_simp
  have lists: "jsonFileObjs danglingDemo = [(''o.json'', [0])]" by code_simp
  have len: "length (heap danglingDemo) = 1" by code_simp
  show ?thesis
    using validation_frame [of sampleCollaborators danglingDemo 0] objs lists len by simp
qed

subsection \<open>C10: the default-file pointer after \<^verbatim>\<open>invalidateFile\<close>\<close>

text \<open>
  C10 as stated fails for the empty path. \<^verbatim>\<open>setDefaultFile\<close> tests its argument
  with \<^verbatim>\<open>if (pathOrNull)\<close>, and the empty string is falsy: with \<^verbatim>\<open>a.json\<close> tracked,
  \<^verbatim>\<open>setDefaultFile("")\<close> points at \<^verbatim>\<open>a.json\<close>, and after \<^verbatim>\<open>invalidateFile("")\<close>
  \<^verbatim>\<open>getDefaultFilePath()\<close> answers \<^verbatim>\<open>a.json\<close>, not the empty path, and
  \<^verbatim>\<open>getDefaultFile()\<close> answers a file.
\<close>

theorem default_pointer_empty_path_counterexample:
  "getDefaultFilePath (invalidateFile [] (setDefaultFile (Some []) oneFileDemo)) = Some ''a.json''
   \<and> getDefaultFilePath (invalidateFile [] (setDefaultFile (Some []) oneFileDemo)) \<noteq> Some []
   \<and> getDefaultFile (invalidateFile [] (setDefaultFile (Some []) oneFileDemo)) \<noteq> None"
  by code_simp

text \<open>
  C10, amended. \<^verbatim>\<open>invalidateFile\<close> does not clear the default-file pointer: for
  every non-empty path \<open>p\<close>, after \<^verbatim>\<open>setDefaultFile(p)\<close> followed by
  \<^verbatim>\<open>invalidateFile(p)\<close>, \<^verbatim>\<open>getDefaultFilePath()\<close> still returns \<open>p\<close> while
  \<^verbatim>\<open>getDefaultFile()\<close> returns \<^verbatim>\<open>undefined\<close>. Neither \<^verbatim>\<open>invalidateFile\<close> (on any
  path) nor \<^verbatim>\<open>ingestFiles\<close> changes the pointer; \<^verbatim>\<open>reset()\<close> clears it; and
  \<^verbatim>\<open>setDefaultFile\<close> with \<^verbatim>\<open>null\<close>, \<^verbatim>\<open>undefined\<close> or the empty string falls back to
  the path of the first tracked file, or \<^verbatim>\<open>null\<close> when there is none (or when
  that path is empty).
\<close>

theorem default_pointer_survives_invalidateFile:
  assumes "p \<noteq> []"
  shows
    "getDefaultFilePath (invalidateFile p (setDefaultFile (Some p) r)) = Some p
     \<and> getDefaultFile (invalidateFile p (setDefaultFile (Some p) r)) = None
     \<and> defaultFilePath (invalidateFile q r) = defaultFilePath r
     \<and> defaultFilePath (ingestFiles env fs cfg r) = defaultFilePath r
     \<and> getDefaultFilePath (reset (invalidateFile p (setDefaultFile (Some p) r))) = None
     \<and> defaultFilePath (setDefaultFile None r) =
         (case jsonFiles r of
            [] \<Rightarrow> None
          | kf # _ \<Rightarrow> if filePath (snd kf) = [] then None else Some (filePath (snd kf)))
     \<and> defaultFilePath (setDefaultFile (Some []) r) = defaultFilePath (setDefaultFile None r)"
proof -
  have a: "getDefaultFilePath (invalidateFile p (setDefaultFile (Some p) r)) = Some p"
    using assms by (rule getDefaultFilePath_set)
  have b: "getDefaultFile (invalidateFile p (setDefaultFile (Some p) r)) = None"
    using assms by (rule getDefaultFile_invalidated)
  have c: "getDefaultFilePath (reset (invalidateFile p (setDefaultFile (Some p) r))) = None"
    by (simp add: getDefaultFilePath_def reset_def orNull_def truthy_def)
  have d: "defaultFilePath (setDefaultFile None r) =
         (case jsonFiles r of
            [] \<Rightarrow> None
          | kf # _ \<Rightarrow> if filePath (snd kf) = [] then None else Some (filePath (snd kf)))"
    by (rule setDefaultFile_fallback) (simp add: truthy_def)
  have e: "defaultFilePath (setDefaultFile (Some []) r) = defaultFilePath (setDefaultFile None r)"
    by (simp add: setDefaultFile_def truthy_def)
  from a b c d e show ?thesis by simp
qed

theorem default_pointer_survives_invalidateFile_witness:
  "''a.json'' \<noteq> []
   \<and> mapHas (jsonFiles oneFileDemo) ''a.json''
   \<and> getDefaultFile (setDefaultFile (Some ''a.json'') oneFileDemo) \<noteq> None
   \<and> getDefaultFilePath (invalidateFile ''a.json'' (setDefaultFile (Some ''a.json'') oneFileDemo))
       = Some ''a.json''
   \<and> getDefaultFile (invalidateFile ''a.json'' (setDefaultFile (Some ''a.json'') oneFileDemo)) = None"
proof -
  have ne: "''a.json'' \<noteq> []" by simp
  have tracked: "mapHas (jsonFiles oneFileDemo) ''a.json''" by code_simp
  have before: "getDefaultFile (setDefaultFile (Some ''a.json'') oneFileDemo) \<noteq> None"
    by code_simp
  show ?thesis
    using default_pointer_survives_invalidateFile [OF ne, of oneFileDemo] tracked before
    by simp
qed

end
